theory Spec2Isabelle
  imports Complex_Main "HOL-Library.Word"
begin

section \<open>Common types\<close>

text \<open>
  Identifiers are 32-byte hashes (\<^verbatim>\<open>crypto.Hash\<close>, \<^verbatim>\<open>[32]byte\<close>); their order is the
  numerical one. A Go \<^verbatim>\<open>error\<close> is a value carrying a message; a run-time panic is kept
  apart from it. \<^verbatim>\<open>modules.ErrInvalidConsensusChangeID\<close> is a package-level error value that
  the contractor compares by identity, so it has a constructor of its own.
\<close>

type_synonym Hash = "256 word"
type_synonym BlockID = Hash
type_synonym SiacoinOutputID = Hash
type_synonym SiafundOutputID = Hash
type_synonym FileContractID = Hash
type_synonym ConsensusChangeID = Hash
type_synonym Target = Hash

datatype error = Error string | Panic string | ErrInvalidConsensusChangeID

section \<open>The consensus state: data\<close>

text \<open>
  Modelled from the spec: the types of package \<^verbatim>\<open>consensus\<close> that the queries read, whose
  declarations are not among the sources at hand. The fields are the ones the queries use,
  with the names the code gives them, and the attributes of a block node are those listed
  in the data model of the specification (block, parent link, children, height, target,
  cumulative weight, the flag and the list of generated diffs). A pointer to a block node
  is the key of the node in \<open>blockMap\<close>. A transaction has the inputs it spends, the outputs
  it creates, the contracts it refers to and free data.
\<close>

record SiacoinOutput =
  Value :: nat
  UnlockHash :: Hash

record SiafundOutput = SiacoinOutput +
  ClaimStart :: nat

record FileContract =
  FileMerkleRoot :: Hash
  Start :: nat
  Expiration :: nat
  Payout :: nat

record SiacoinOutputDiff =
  New :: bool
  OutputID :: SiacoinOutputID
  Output :: SiacoinOutput

record Transaction =
  SiacoinInputs :: "SiacoinOutputID list"
  SiacoinOutputs :: "SiacoinOutput list"
  ContractRefs :: "FileContractID list"
  ArbitraryData :: "8 word list"

record Block =
  ParentID :: BlockID
  Nonce :: nat
  Timestamp :: nat
  Transactions :: "Transaction list"

record blockNode =
  block :: Block
  parent :: "BlockID option"
  children :: "BlockID list"
  height :: nat
  target :: Target
  depth :: rat
  diffsGenerated :: bool
  siacoinOutputDiffs :: "SiacoinOutputDiff list"

text \<open>
  The state. \<open>currentPath\<close> is a slice of block ids. The ledger maps are Go maps; the ones
  the code iterates over with \<^verbatim>\<open>range\<close> need an enumeration of their keys, so a ledger map is
  an association list with distinct keys, whose order stands for the unspecified iteration
  order, read with \<open>map_of\<close>. \<open>mu\<close> is the read-write lock of the state.
\<close>

record 'm State =
  blockMap :: "BlockID \<rightharpoonup> blockNode"
  currentPath :: "BlockID list"
  siacoinOutputs :: "(SiacoinOutputID \<times> SiacoinOutput) list"
  siafundOutputs :: "(SiafundOutputID \<times> SiafundOutput) list"
  fileContracts :: "(FileContractID \<times> FileContract) list"
  mu :: 'm

text \<open>
  What the queries use and the sources at hand do not define is a parameter: the constant
  \<^verbatim>\<open>DEBUG\<close>, the hash \<^verbatim>\<open>Block.ID()\<close>, the two operations of the lock (\<^verbatim>\<open>RLock\<close> returns a
  counter that \<^verbatim>\<open>RUnlock\<close> takes back), the constant \<^verbatim>\<open>BlockSizeLimit\<close>, the encoder
  \<^verbatim>\<open>encoding.Marshal\<close> and the four checks that \<^verbatim>\<open>ValidTransactionComponents\<close> calls; and for
  the insertion of a block, the rule that gives the target of a new node and the function
  that generates the diffs of a block from the ledger as of its parent.
\<close>

record 'm env =
  DEBUG :: bool
  ID :: "Block \<Rightarrow> BlockID"
  RLock :: "'m \<Rightarrow> string \<Rightarrow> int \<times> 'm"
  RUnlock :: "'m \<Rightarrow> string \<Rightarrow> int \<Rightarrow> 'm"
  BlockSizeLimit :: int
  Marshal :: "Transaction \<Rightarrow> 8 word list"
  FollowsStorageProofRules :: "Transaction \<Rightarrow> error option"
  validFileContracts :: "'m State \<Rightarrow> Transaction \<Rightarrow> error option"
  validStorageProofs :: "'m State \<Rightarrow> Transaction \<Rightarrow> error option"
  validSignatures :: "'m State \<Rightarrow> Transaction \<Rightarrow> error option"
  childTarget :: "blockNode \<Rightarrow> Block \<Rightarrow> Target"
  generateDiffs :: "'m State \<Rightarrow> Block \<Rightarrow> error + SiacoinOutputDiff list"

text \<open>The zero values that a Go map read or an unset result gives.\<close>

definition zeroBlock :: Block where
  "zeroBlock = \<lparr>ParentID = 0, Nonce = 0, Timestamp = 0, Transactions = []\<rparr>"

definition zeroSiacoinOutput :: SiacoinOutput where
  "zeroSiacoinOutput = \<lparr>Value = 0, UnlockHash = 0\<rparr>"

definition zeroSiafundOutput :: SiafundOutput where
  "zeroSiafundOutput = \<lparr>Value = 0, UnlockHash = 0, ClaimStart = 0\<rparr>"

definition zeroFileContract :: FileContract where
  "zeroFileContract = \<lparr>FileMerkleRoot = 0, Start = 0, Expiration = 0, Payout = 0\<rparr>"

text \<open>
  Indexing and slicing a slice panic out of range. A slice expression is checked against
  the capacity in Go; the model takes the capacity of \<open>currentPath\<close> to be its length.
  Reading a field through a nil pointer panics.
\<close>

definition index :: "'a list \<Rightarrow> nat \<Rightarrow> error + 'a" where
  "index xs i = (if i < length xs then Inr (xs ! i) else Inl (Panic ''index out of range''))"

definition slice :: "'a list \<Rightarrow> nat \<Rightarrow> nat \<Rightarrow> error + 'a list" where
  "slice xs lo hi =
     (if lo \<le> hi \<and> hi \<le> length xs then Inr (take (hi - lo) (drop lo xs))
      else Inl (Panic ''slice bounds out of range''))"

definition deref :: "blockNode option \<Rightarrow> error + blockNode" where
  "deref p = (case p of None \<Rightarrow> Inl (Panic ''nil pointer dereference'') | Some n \<Rightarrow> Inr n)"

text \<open>
  \<^verbatim>\<open>counter := s.mu.RLock(label); defer s.mu.RUnlock(label, counter)\<close> around a body. The
  body is a piece of code that works on the state through the pointer \<^verbatim>\<open>s\<close>: it gets the
  state with the lock taken and gives its result and the state it leaves, and the lock is
  released on that state, on every way out, a panic too.
\<close>

definition with_RLock ::
  "'m env \<Rightarrow> string \<Rightarrow> 'm State \<Rightarrow> ('m State \<Rightarrow> 'r \<times> 'm State) \<Rightarrow> 'r \<times> 'm State" where
  "with_RLock E label s body =
     (case RLock E (mu s) label of
        (counter, m) \<Rightarrow>
          (case body (s\<lparr>mu := m\<rparr>) of
             (r, s') \<Rightarrow> (r, s'\<lparr>mu := RUnlock E (mu s') label counter\<rparr>)))"

section \<open>The consensus state: queries\<close>

text \<open>
  \<^verbatim>\<open>BlockHeight\<close> is \<^verbatim>\<open>uint64\<close>; heights are natural numbers here and the wrap-around is
  written out where the code computes with them. \<^verbatim>\<open>BlockHeight(len(s.currentPath) - 1)\<close>
  converts an \<^verbatim>\<open>int\<close>, so the height of an empty path is \<open>2 ^ 64 - 1\<close>.
\<close>

definition height :: "'m State \<Rightarrow> nat" where
  "height s = (length (currentPath s) + 2 ^ 64 - 1) mod 2 ^ 64"

definition blockAtHeight :: "'m State \<Rightarrow> nat \<Rightarrow> error + Block \<times> bool" where
  "blockAtHeight s h =
     (let exists = h \<le> height s in
      if exists then
        (case index (currentPath s) h of
           Inl e \<Rightarrow> Inl e
         | Inr i \<Rightarrow> (case deref (blockMap s i) of
                      Inl e \<Rightarrow> Inl e
                    | Inr n \<Rightarrow> Inr (block n, exists)))
      else Inr (zeroBlock, exists))"

definition currentBlockID :: "'m State \<Rightarrow> error + BlockID" where
  "currentBlockID s = index (currentPath s) (height s)"

definition currentBlockNode :: "'m State \<Rightarrow> error + blockNode option" where
  "currentBlockNode s = (case currentBlockID s of Inl e \<Rightarrow> Inl e | Inr i \<Rightarrow> Inr (blockMap s i))"

text \<open>
  Modelled from the spec: \<^verbatim>\<open>Target.Inverse\<close>, which the sources at hand do not define. The
  specification says that the weight is 1/target in exact rational arithmetic; the target
  is read as an unsigned number, and a zero target has no inverse.
\<close>

definition Inverse :: "Target \<Rightarrow> error + rat" where
  "Inverse t = (if t = 0 then Inl (Panic ''division by zero'') else Inr (1 / of_nat (unat t)))"

definition currentBlockWeight :: "'m State \<Rightarrow> error + rat" where
  "currentBlockWeight s =
     (case currentBlockNode s of
        Inl e \<Rightarrow> Inl e
      | Inr p \<Rightarrow> (case deref p of Inl e \<Rightarrow> Inl e | Inr n \<Rightarrow> Inverse (target n)))"

text \<open>\<^verbatim>\<open>output\<close> (the name is a keyword here, hence the prime).\<close>

definition output' :: "'m State \<Rightarrow> SiacoinOutputID \<Rightarrow> SiacoinOutput \<times> bool" where
  "output' s i =
     (case map_of (siacoinOutputs s) i of None \<Rightarrow> (zeroSiacoinOutput, False) | Some sco \<Rightarrow> (sco, True))"

text \<open>
  \<^verbatim>\<open>sortedUscoSet\<close>: \<^verbatim>\<open>make(crypto.HashSlice, len(s.siacoinOutputs))\<close> is a slice of that many
  zero hashes, and \<^verbatim>\<open>append\<close> adds each key after them. \<^verbatim>\<open>sort.Sort\<close> orders the hashes by
  their numerical value. The second loop writes one output for each hash of the sorted
  slice.
\<close>

definition sortedUscoSet :: "'m State \<Rightarrow> SiacoinOutput list" where
  "sortedUscoSet s =
     (let unspentOutputs = replicate (length (siacoinOutputs s)) (0 :: Hash);
          unspentOutputs = unspentOutputs @ map fst (siacoinOutputs s);
          unspentOutputs = sort unspentOutputs
      in map (\<lambda>outputID. fst (output' s outputID)) unspentOutputs)"

text \<open>The second loop of \<^verbatim>\<open>sortedUsfoSet\<close>, which panics on a missing output when \<^verbatim>\<open>DEBUG\<close> is set.\<close>

fun usfo_loop :: "bool \<Rightarrow> (SiafundOutputID \<times> SiafundOutput) list \<Rightarrow> Hash list \<Rightarrow> error + SiafundOutput list" where
  "usfo_loop dbg m [] = Inr []"
| "usfo_loop dbg m (outputID # rest) =
     (case map_of m outputID of
        None \<Rightarrow>
          if dbg then Inl (Panic ''output doesn't exist'')
          else (case usfo_loop dbg m rest of Inl e \<Rightarrow> Inl e | Inr outs \<Rightarrow> Inr (zeroSiafundOutput # outs))
      | Some out \<Rightarrow> (case usfo_loop dbg m rest of Inl e \<Rightarrow> Inl e | Inr outs \<Rightarrow> Inr (out # outs)))"

definition sortedUsfoSet :: "'m env \<Rightarrow> 'm State \<Rightarrow> error + SiafundOutput list" where
  "sortedUsfoSet E s =
     (let outputIDs = replicate (length (siafundOutputs s)) (0 :: Hash);
          outputIDs = outputIDs @ map fst (siafundOutputs s);
          outputIDs = sort outputIDs
      in usfo_loop (DEBUG E) (siafundOutputs s) outputIDs)"

text \<open>
  The exported queries. Each takes the read lock around its body. The code of the bodies
  and of the private methods they call (\<^verbatim>\<open>height\<close>, \<^verbatim>\<open>blockAtHeight\<close>, \<^verbatim>\<open>currentBlockNode\<close>,
  \<^verbatim>\<open>output\<close>, \<^verbatim>\<open>sortedUscoSet\<close>) reads the fields of the state and has no assignment to a
  field, no write to a map and no \<^verbatim>\<open>append\<close> to a slice of the state; so each body gives, next
  to its result, the state it was given.
\<close>

definition BlockAtHeight :: "'m env \<Rightarrow> 'm State \<Rightarrow> nat \<Rightarrow> (error + Block \<times> bool) \<times> 'm State" where
  "BlockAtHeight E s h = with_RLock E ''state BlockAtHeight'' s (\<lambda>s. (blockAtHeight s h, s))"

definition Block :: "'m env \<Rightarrow> 'm State \<Rightarrow> BlockID \<Rightarrow> (Block \<times> bool) \<times> 'm State" where
  "Block E s i = with_RLock E ''state Block'' s
     (\<lambda>s. (case blockMap s i of None \<Rightarrow> (zeroBlock, False) | Some node \<Rightarrow> (block node, True), s))"

text \<open>
  The loop of \<^verbatim>\<open>BlockRange\<close> over \<^verbatim>\<open>s.currentPath[start : stop+1]\<close>, which fills the slice
  \<^verbatim>\<open>blocks\<close> made for \<open>(stop - start) + 1\<close> blocks: as many as the ids of the slice
  expression whenever that expression does not panic.
\<close>

fun blockRange_loop :: "bool \<Rightarrow> (BlockID \<rightharpoonup> blockNode) \<Rightarrow> BlockID list \<Rightarrow> error + Block list" where
  "blockRange_loop dbg bm [] = Inr []"
| "blockRange_loop dbg bm (i # rest) =
     (case bm i of
        None \<Rightarrow>
          if dbg then Inl (Panic ''blockMap is missing a block whose ID is in the currentPath'')
          else Inl (Error ''State is inconsistent'')
      | Some node \<Rightarrow>
          (case blockRange_loop dbg bm rest of Inl e \<Rightarrow> Inl e | Inr blocks \<Rightarrow> Inr (block node # blocks)))"

text \<open>
  \<^verbatim>\<open>BlockRange\<close>. \<^verbatim>\<open>make([]Block, (stop-start)+1)\<close> comes before the slice expression and
  panics when the length, a \<^verbatim>\<open>uint64\<close>, is above the largest \<^verbatim>\<open>int\<close>; the limit that the
  memory of the machine puts on an allocation is not modelled.
\<close>

definition BlockRange :: "'m env \<Rightarrow> 'm State \<Rightarrow> nat \<Rightarrow> nat \<Rightarrow> (error + Block list) \<times> 'm State" where
  "BlockRange E s start stop = with_RLock E ''state BlockRange'' s
     (\<lambda>s. (if start > stop \<or> stop > height s then Inl (Error ''invalid range'')
          else if 2 ^ 63 \<le> ((stop - start) + 1) mod 2 ^ 64
          then Inl (Panic ''makeslice: len out of range'')
          else (case slice (currentPath s) start ((stop + 1) mod 2 ^ 64) of
                  Inl e \<Rightarrow> Inl e
                | Inr ids \<Rightarrow> blockRange_loop (DEBUG E) (blockMap s) ids), s))"

definition BlockOutputDiffs :: "'m env \<Rightarrow> 'm State \<Rightarrow> BlockID \<Rightarrow> (error + SiacoinOutputDiff list) \<times> 'm State" where
  "BlockOutputDiffs E s i = with_RLock E ''state BlockOutputDiffs'' s
     (\<lambda>s. (case blockMap s i of
            None \<Rightarrow> Inl (Error ''requested an unknown block'')
          | Some node \<Rightarrow>
              if \<not> diffsGenerated node
              then Inl (Error ''diffs have not been generated for the requested block'')
              else Inr (siacoinOutputDiffs node), s))"

text \<open>
  Modelled from the spec: \<^verbatim>\<open>backtrackToCurrentPath\<close>, which the sources at hand call and do
  not define. The specification has it walk the parent links from a node until it finds a
  node of the current path, the common ancestor; \<^verbatim>\<open>BlocksSince\<close> reads the result as the
  nodes from the ancestor (first) to the given node (last). A node is on the current path
  when the path holds its id at its height. The walk follows pointers, so nothing bounds it
  in an arbitrary state: \<open>None\<close> is "does not return".
\<close>

partial_function (option) backtrackToCurrentPath ::
  "'m env \<Rightarrow> 'm State \<Rightarrow> blockNode \<Rightarrow> blockNode list \<Rightarrow> (error + blockNode list) option" where
  "backtrackToCurrentPath E s bn path =
     (if index (currentPath s) (blockNode.height bn) = Inr (ID E (block bn))
      then Some (Inr (bn # path))
      else (case parent bn of
              None \<Rightarrow> Some (Inl (Panic ''nil pointer dereference''))
            | Some pid \<Rightarrow>
                (case blockMap s pid of
                   None \<Rightarrow> Some (Inl (Panic ''nil pointer dereference''))
                 | Some p \<Rightarrow> backtrackToCurrentPath E s p (bn # path))))"

text \<open>
  \<^verbatim>\<open>BlocksSince\<close>. The first loop appends \<^verbatim>\<open>path[i].block.ID()\<close> for \<open>i\<close> from the last index
  down to 1; \<^verbatim>\<open>s.currentPath[path[0].height+1:]\<close> is the rest of the current path.
\<close>

definition BlocksSince ::
  "'m env \<Rightarrow> 'm State \<Rightarrow> BlockID \<Rightarrow> ((error + BlockID list \<times> BlockID list) \<times> 'm State) option" where
  "BlocksSince E s i =
     (case with_RLock E ''state BlocksSince'' s
        (\<lambda>s. (case blockMap s i of
               None \<Rightarrow> Some (Inl (Error ''block is unknown''))
             | Some node \<Rightarrow>
                 (case backtrackToCurrentPath E s node [] of
                    None \<Rightarrow> None
                  | Some (Inl e) \<Rightarrow> Some (Inl e)
                  | Some (Inr path) \<Rightarrow>
                      (case path of
                         [] \<Rightarrow> Some (Inl (Panic ''index out of range''))
                       | p0 # rest \<Rightarrow>
                           let removedBlocks = map (\<lambda>n. ID E (block n)) (rev rest)
                           in (case slice (currentPath s) ((blockNode.height p0 + 1) mod 2 ^ 64)
                                      (length (currentPath s)) of
                                 Inl e \<Rightarrow> Some (Inl e)
                               | Inr addedBlocks \<Rightarrow> Some (Inr (removedBlocks, addedBlocks))))), s))
      of (None, s') \<Rightarrow> None
       | (Some r, s') \<Rightarrow> Some (r, s'))"

definition FileContract :: "'m env \<Rightarrow> 'm State \<Rightarrow> FileContractID \<Rightarrow> (FileContract \<times> bool) \<times> 'm State" where
  "FileContract E s i = with_RLock E ''state FileContract'' s
     (\<lambda>s. (case map_of (fileContracts s) i of None \<Rightarrow> (zeroFileContract, False) | Some fc \<Rightarrow> (fc, True), s))"

definition CurrentBlock :: "'m env \<Rightarrow> 'm State \<Rightarrow> (error + Block) \<times> 'm State" where
  "CurrentBlock E s = with_RLock E ''state CurrentBlock'' s
     (\<lambda>s. (case currentBlockNode s of
            Inl e \<Rightarrow> Inl e
          | Inr p \<Rightarrow> (case deref p of Inl e \<Rightarrow> Inl e | Inr n \<Rightarrow> Inr (block n)), s))"

definition CurrentTarget :: "'m env \<Rightarrow> 'm State \<Rightarrow> (error + Target) \<times> 'm State" where
  "CurrentTarget E s = with_RLock E ''state CurrentTarget'' s
     (\<lambda>s. (case currentBlockNode s of
            Inl e \<Rightarrow> Inl e
          | Inr p \<Rightarrow> (case deref p of Inl e \<Rightarrow> Inl e | Inr n \<Rightarrow> Inr (target n)), s))"

definition Height :: "'m env \<Rightarrow> 'm State \<Rightarrow> nat \<times> 'm State" where
  "Height E s = with_RLock E ''state BlockHeight'' s (\<lambda>s. (height s, s))"

definition HeightOfBlock :: "'m env \<Rightarrow> 'm State \<Rightarrow> BlockID \<Rightarrow> (nat \<times> bool) \<times> 'm State" where
  "HeightOfBlock E s bid = with_RLock E ''state HeightOfBlock'' s
     (\<lambda>s. (case blockMap s bid of None \<Rightarrow> (0, False) | Some bn \<Rightarrow> (blockNode.height bn, True), s))"

definition SiacoinOutput :: "'m env \<Rightarrow> 'm State \<Rightarrow> SiacoinOutputID \<Rightarrow> (SiacoinOutput \<times> bool) \<times> 'm State" where
  "SiacoinOutput E s i = with_RLock E ''state SiacoinOutput'' s (\<lambda>s. (output' s i, s))"

definition SiafundOutput :: "'m env \<Rightarrow> 'm State \<Rightarrow> SiafundOutputID \<Rightarrow> (SiafundOutput \<times> bool) \<times> 'm State" where
  "SiafundOutput E s i = with_RLock E ''state SiafundOutput'' s
     (\<lambda>s. (case map_of (siafundOutputs s) i of None \<Rightarrow> (zeroSiafundOutput, False) | Some out \<Rightarrow> (out, True), s))"

definition SortedUtxoSet :: "'m env \<Rightarrow> 'm State \<Rightarrow> SiacoinOutput list \<times> 'm State" where
  "SortedUtxoSet E s = with_RLock E ''state SortedUtxoSet'' s (\<lambda>s. (sortedUscoSet s, s))"

text \<open>
  The body of \<^verbatim>\<open>ValidTransactionComponents\<close>, which runs with the read lock held. A check
  returns \<^verbatim>\<open>nil\<close> (\<open>None\<close>) or an error. \<^verbatim>\<open>BlockSizeLimit-5e3\<close> is a constant expression.
\<close>

definition validTransactionComponents :: "'m env \<Rightarrow> 'm State \<Rightarrow> Transaction \<Rightarrow> error option" where
  "validTransactionComponents E s t =
     (if int (length (Marshal E t)) > BlockSizeLimit E - 5000
      then Some (Error ''transaction is too large'')
      else (case FollowsStorageProofRules E t of
              Some err \<Rightarrow> Some err
            | None \<Rightarrow>
                (case validFileContracts E s t of
                   Some err \<Rightarrow> Some err
                 | None \<Rightarrow>
                     (case validStorageProofs E s t of
                        Some err \<Rightarrow> Some err
                      | None \<Rightarrow> validSignatures E s t))))"

definition ValidTransactionComponents :: "'m env \<Rightarrow> 'm State \<Rightarrow> Transaction \<Rightarrow> error option \<times> 'm State" where
  "ValidTransactionComponents E s t =
     with_RLock E ''state ValidTransactionComponents'' s (\<lambda>s. (validTransactionComponents E s t, s))"

text \<open>
  Modelled from the spec: \<^verbatim>\<open>validTransaction\<close>, which the sources at hand call and do not
  define. The specification makes it a superset of the checks of
  \<^verbatim>\<open>validTransactionComponents\<close> that requires in addition that every input refers to an
  output that is in the ledger's map of unspent outputs, that every contract the transaction
  refers to exists, and that no two inputs of the transaction spend the same output.
\<close>

definition validTransaction :: "'m env \<Rightarrow> 'm State \<Rightarrow> Transaction \<Rightarrow> error option" where
  "validTransaction E s t =
     (case validTransactionComponents E s t of
        Some err \<Rightarrow> Some err
      | None \<Rightarrow>
          if \<exists>i \<in> set (SiacoinInputs t). map_of (siacoinOutputs s) i = None
          then Some (Error ''transaction spends a nonexisting siacoin output'')
          else if \<exists>c \<in> set (ContractRefs t). map_of (fileContracts s) c = None
          then Some (Error ''transaction refers to a nonexisting file contract'')
          else if \<not> distinct (SiacoinInputs t)
          then Some (Error ''transaction spends an output twice'')
          else None)"

definition ValidTransaction :: "'m env \<Rightarrow> 'm State \<Rightarrow> Transaction \<Rightarrow> error option \<times> 'm State" where
  "ValidTransaction E s t = with_RLock E ''state ValidTransaction'' s (\<lambda>s. (validTransaction E s t, s))"

section \<open>The consensus state: insertion of a block\<close>

text \<open>
  Modelled from the spec: the insertion of a block into the block tree with the resolution
  of forks, which writes \<open>blockMap\<close> and \<open>currentPath\<close> and is not among the sources at hand.
  After the specification: a node is created when a block is first seen, and the parent
  that the block declares must be present; the height of the node is the height of the
  parent plus one, its target comes from the parent, and its cumulative weight adds the
  inverse of its target to the weight of the parent. When the new weight is not above the
  weight of the head the block is recorded and the current path stays; otherwise the walk
  back to the current path finds the common ancestor, and the current path is cut after the
  ancestor and extended with the ids of the nodes from the ancestor to the new node, while
  the diffs of the blocks that leave the path are reverted and those of the blocks that come
  onto it are generated, unless they are cached on the node, and applied. Of the diffs, the
  ones the code at hand shows are modelled: the siacoin output diffs of a node.
\<close>

definition newNode :: "'m env \<Rightarrow> blockNode \<Rightarrow> Block \<Rightarrow> rat \<Rightarrow> blockNode" where
  "newNode E p b w =
     \<lparr>block = b, parent = Some (ParentID b), children = [],
      height = blockNode.height p + 1, target = childTarget E p b,
      depth = depth p + w, diffsGenerated = False, siacoinOutputDiffs = []\<rparr>"

text \<open>
  Modelled from the spec: the new node is recorded in the block map, and among the children
  of its parent.
\<close>

definition addNode :: "'m env \<Rightarrow> 'm State \<Rightarrow> blockNode \<Rightarrow> blockNode \<Rightarrow> 'm State" where
  "addNode E s p node =
     s\<lparr>blockMap := (blockMap s)
          (ParentID (block node) \<mapsto> p\<lparr>children := children p @ [ID E (block node)]\<rparr>,
           ID E (block node) \<mapsto> node)\<rparr>"

text \<open>
  Modelled from the spec: a diff is a fact (an output was created, or spent) that is applied
  in one direction and reverted in the other, so that reverting undoes applying on the map.
  The order of the association list is the iteration order of the map and has no other
  meaning.
\<close>

definition applyDiff ::
  "SiacoinOutputDiff \<Rightarrow> (SiacoinOutputID \<times> SiacoinOutput) list \<Rightarrow> (SiacoinOutputID \<times> SiacoinOutput) list" where
  "applyDiff d m =
     (if New d then m @ [(OutputID d, Output d)] else filter (\<lambda>kv. fst kv \<noteq> OutputID d) m)"

definition revertDiff ::
  "SiacoinOutputDiff \<Rightarrow> (SiacoinOutputID \<times> SiacoinOutput) list \<Rightarrow> (SiacoinOutputID \<times> SiacoinOutput) list" where
  "revertDiff d m =
     (if New d then filter (\<lambda>kv. fst kv \<noteq> OutputID d) m else m @ [(OutputID d, Output d)])"

text \<open>
  Modelled from the spec: \<open>applyDiffs\<close> applies every diff recorded on a node, in the recorded
  order; \<open>revertDiffs\<close> applies the inverse of every diff, in the reverse order.
\<close>

definition applyDiffs :: "blockNode \<Rightarrow> 'm State \<Rightarrow> 'm State" where
  "applyDiffs node s = s\<lparr>siacoinOutputs := fold applyDiff (siacoinOutputDiffs node) (siacoinOutputs s)\<rparr>"

definition revertDiffs :: "blockNode \<Rightarrow> 'm State \<Rightarrow> 'm State" where
  "revertDiffs node s =
     s\<lparr>siacoinOutputs := fold revertDiff (rev (siacoinOutputDiffs node)) (siacoinOutputs s)\<rparr>"

text \<open>
  Modelled from the spec: a block comes onto the current path. Its diffs are generated from
  the ledger as it is then, which is the ledger as of the parent, unless the node has them
  already; the node keeps them, with its flag set; and they are applied. A failure of the
  generation is fatal.
\<close>

definition applyBlock :: "'m env \<Rightarrow> 'm State \<Rightarrow> BlockID \<Rightarrow> error + 'm State" where
  "applyBlock E s i =
     (case blockMap s i of
        None \<Rightarrow> Inl (Panic ''nil pointer dereference'')
      | Some node \<Rightarrow>
          if diffsGenerated node then Inr (applyDiffs node s)
          else (case generateDiffs E s (block node) of
                  Inl e \<Rightarrow> Inl e
                | Inr ds \<Rightarrow>
                    let node' = node\<lparr>diffsGenerated := True, siacoinOutputDiffs := ds\<rparr>
                    in Inr (applyDiffs node' (s\<lparr>blockMap := (blockMap s)(i \<mapsto> node')\<rparr>))))"

fun applyBlocks :: "'m env \<Rightarrow> 'm State \<Rightarrow> BlockID list \<Rightarrow> error + 'm State" where
  "applyBlocks E s [] = Inr s"
| "applyBlocks E s (i # rest) =
     (case applyBlock E s i of Inl e \<Rightarrow> Inl e | Inr s' \<Rightarrow> applyBlocks E s' rest)"

text \<open>Modelled from the spec: a block leaves the current path, and its diffs are reverted.\<close>

definition revertBlock :: "'m State \<Rightarrow> BlockID \<Rightarrow> error + 'm State" where
  "revertBlock s i =
     (case blockMap s i of
        None \<Rightarrow> Inl (Panic ''nil pointer dereference'')
      | Some node \<Rightarrow> Inr (revertDiffs node s))"

fun revertBlocks :: "'m State \<Rightarrow> BlockID list \<Rightarrow> error + 'm State" where
  "revertBlocks s [] = Inr s"
| "revertBlocks s (i # rest) =
     (case revertBlock s i of Inl e \<Rightarrow> Inl e | Inr s' \<Rightarrow> revertBlocks s' rest)"

text \<open>
  Modelled from the spec: the reorganisation. The walk back from the new node gives the
  common ancestor and the nodes to add. The blocks of the current path above the ancestor
  are reverted, from the head backward; the blocks to add are applied, from just above the
  ancestor forward to the new node; and the current path is cut after the ancestor and
  extended with the ids of the added nodes.
\<close>

definition forkBlockchain :: "'m env \<Rightarrow> 'm State \<Rightarrow> blockNode \<Rightarrow> (error + 'm State) option" where
  "forkBlockchain E s node =
     (case backtrackToCurrentPath E s node [] of
        None \<Rightarrow> None
      | Some (Inl e) \<Rightarrow> Some (Inl e)
      | Some (Inr path) \<Rightarrow>
          (case path of
             [] \<Rightarrow> Some (Inl (Panic ''index out of range''))
           | anc # added \<Rightarrow>
               (case revertBlocks s (rev (drop (blockNode.height anc + 1) (currentPath s))) of
                  Inl e \<Rightarrow> Some (Inl e)
                | Inr s1 \<Rightarrow>
                    (case applyBlocks E s1 (map (\<lambda>n. ID E (block n)) added) of
                       Inl e \<Rightarrow> Some (Inl e)
                     | Inr s2 \<Rightarrow>
                         Some (Inr (s2\<lparr>currentPath :=
                           take (blockNode.height anc + 1) (currentPath s2)
                           @ map (\<lambda>n. ID E (block n)) added\<rparr>))))))"

text \<open>
  Modelled from the spec: the insertion itself, with the comparison of the cumulative
  weights of the new node and of the head.
\<close>

definition insertBlock :: "'m env \<Rightarrow> 'm State \<Rightarrow> Block \<Rightarrow> (error + 'm State) option" where
  "insertBlock E s b =
     (case blockMap s (ID E b) of
        Some known \<Rightarrow> Some (Inl (Error ''block is already known''))
      | None \<Rightarrow>
          (case blockMap s (ParentID b) of
             None \<Rightarrow> Some (Inl (Error ''unknown parent''))
           | Some p \<Rightarrow>
               (case Inverse (childTarget E p b) of
                  Inl e \<Rightarrow> Some (Inl e)
                | Inr w \<Rightarrow>
                    let node = newNode E p b w;
                        s1 = addNode E s p node
                    in (case currentBlockNode s1 of
                          Inl e \<Rightarrow> Some (Inl e)
                        | Inr hp \<Rightarrow>
                            (case deref hp of
                               Inl e \<Rightarrow> Some (Inl e)
                             | Inr head \<Rightarrow>
                                 if depth node \<le> depth head then Some (Inr s1)
                                 else forkBlockchain E s1 node)))))"

text \<open>Modelled from the spec: blocks inserted one after the other, up to the first failure.\<close>

fun insertBlocks :: "'m env \<Rightarrow> 'm State \<Rightarrow> Block list \<Rightarrow> (error + 'm State) option" where
  "insertBlocks E s [] = Some (Inr s)"
| "insertBlocks E s (b # bs) =
     (case insertBlock E s b of
        None \<Rightarrow> None
      | Some (Inl e) \<Rightarrow> Some (Inl e)
      | Some (Inr s') \<Rightarrow> insertBlocks E s' bs)"

text \<open>
  Two nodes are the same node up to its diffs when they differ at most in the flag and the
  list of the generated diffs; two states have the same tree up to the diffs when they have
  the same current path and, under every id, the same node up to its diffs.
\<close>

definition same_node :: "blockNode \<Rightarrow> blockNode \<Rightarrow> bool" where
  "same_node n n' \<longleftrightarrow>
     n' = n\<lparr>diffsGenerated := diffsGenerated n', siacoinOutputDiffs := siacoinOutputDiffs n'\<rparr>"

definition same_tree :: "'m State \<Rightarrow> 'm State \<Rightarrow> bool" where
  "same_tree s s' \<longleftrightarrow>
     currentPath s' = currentPath s \<and> (\<forall>k. rel_option same_node (blockMap s k) (blockMap s' k))"

text \<open>
  Modelled from the spec: the states of the consensus set. The tree is rooted at a genesis
  node of height 0, which alone makes the first current path; blocks are inserted one at a
  time. The insertion above fixes neither the ledger maps other than the siacoin outputs,
  nor the lock, nor the moment at which the diffs of a node are generated (the specification
  has them generated the first time a node is visited); so a state with the same tree up to
  the diffs as a state of the consensus set, and any ledger maps and lock, counts as one.
  What the third rule cannot change is the blocks, the links, the heights, the targets and
  the weights of the nodes, and the current path.
\<close>

inductive reachable :: "'m env \<Rightarrow> 'm State \<Rightarrow> bool" for E :: "'m env" where
  reachable_genesis:
    "parent n = None \<Longrightarrow> blockNode.height n = 0 \<Longrightarrow> blockMap s = [ID E (block n) \<mapsto> n]
     \<Longrightarrow> currentPath s = [ID E (block n)] \<Longrightarrow> reachable E s"
| reachable_insert:
    "reachable E s \<Longrightarrow> insertBlock E s b = Some (Inr s') \<Longrightarrow> reachable E s'"
| reachable_diffs:
    "reachable E s \<Longrightarrow> same_tree s s' \<Longrightarrow> reachable E s'"

text \<open>
  Modelled from the spec: the fork of a block, after the words of the specification: the
  ids from the block down its parent links, as long as they are off the current path, and
  the first id on the current path, the common ancestor.
\<close>

inductive fork_to_path :: "'m State \<Rightarrow> BlockID \<Rightarrow> BlockID list \<Rightarrow> BlockID \<Rightarrow> bool"
  for s :: "'m State" where
  fork_on_path: "i \<in> set (currentPath s) \<Longrightarrow> fork_to_path s i [] i"
| fork_off_path:
    "i \<notin> set (currentPath s) \<Longrightarrow> blockMap s i = Some n \<Longrightarrow> parent n = Some pid
     \<Longrightarrow> fork_to_path s pid rest anc \<Longrightarrow> fork_to_path s i (i # rest) anc"

text \<open>
  The invariant of the block map and the current path, which the genesis state has and the
  insertion keeps:
  the path is not empty; the id at each index of the path is in the block map, at a node of
  that height; a node is stored under the id of its block; a node without parent is the
  genesis node, of height 0 and first on the path; and the parent of any other node is in
  the block map, one below.
\<close>

definition tree_inv :: "'m env \<Rightarrow> 'm State \<Rightarrow> bool" where
  "tree_inv E s \<longleftrightarrow>
     currentPath s \<noteq> [] \<and>
     (\<forall>i < length (currentPath s). \<exists>n. blockMap s (currentPath s ! i) = Some n \<and> blockNode.height n = i) \<and>
     (\<forall>k n. blockMap s k = Some n \<longrightarrow> ID E (block n) = k) \<and>
     (\<forall>k n. blockMap s k = Some n \<longrightarrow> parent n = None \<longrightarrow>
        blockNode.height n = 0 \<and> k = currentPath s ! 0) \<and>
     (\<forall>k n pid. blockMap s k = Some n \<longrightarrow> parent n = Some pid \<longrightarrow>
        (\<exists>p. blockMap s pid = Some p \<and> blockNode.height n = blockNode.height p + 1))"

text \<open>
  A query leaves the state unchanged when the block map, the current path and the three
  ledger maps are what they were; the lock is not part of this.
\<close>

definition unchanged :: "'m State \<Rightarrow> 'm State \<Rightarrow> bool" where
  "unchanged s s' \<longleftrightarrow>
     blockMap s' = blockMap s \<and> currentPath s' = currentPath s
     \<and> siacoinOutputs s' = siacoinOutputs s \<and> siafundOutputs s' = siafundOutputs s
     \<and> fileContracts s' = fileContracts s"

section \<open>The contractor (modules/renter/contractor/contractor.go)\<close>

record contractUtility =
  GoodForUpload :: bool
  GoodForRenew :: bool

text \<open>
  The fields of \<^verbatim>\<open>Contractor\<close> that hold plain data. The dependencies (\<^verbatim>\<open>cs\<close>, \<^verbatim>\<open>hdb\<close>,
  \<^verbatim>\<open>persist\<close>, \<^verbatim>\<open>tpool\<close>, \<^verbatim>\<open>wallet\<close>, the logger and the thread group) are the outside
  world of \<open>newContractor\<close> below.
\<close>

record Contractor =
  blockHeight :: nat
  currentPeriod :: nat
  lastChange :: ConsensusChangeID
  renewing :: "FileContractID \<rightharpoonup> bool"
  revising :: "FileContractID \<rightharpoonup> bool"
  contractUtilities :: "FileContractID \<rightharpoonup> contractUtility"
  renewedIDs :: "FileContractID \<rightharpoonup> FileContractID"

text \<open>
  \<^verbatim>\<open>newID, exists := c.renewedIDs[id]\<close>: a Go map read gives the zero value and
  \<^verbatim>\<open>false\<close> for a missing key.
\<close>

definition lookupID :: "(FileContractID \<rightharpoonup> FileContractID) \<Rightarrow> FileContractID \<Rightarrow> FileContractID \<times> bool" where
  "lookupID m i = (case m i of None \<Rightarrow> (0, False) | Some v \<Rightarrow> (v, True))"

text \<open>
  The loop \<^verbatim>\<open>for exists { id = newID; newID, exists = c.renewedIDs[id] }\<close> of \<^verbatim>\<open>resolveID\<close>.
  It runs forever on a cyclic map, so it is a partial function: \<open>None\<close> is "does not return".
\<close>

partial_function (option) resolveID_loop ::
  "Contractor \<Rightarrow> FileContractID \<Rightarrow> FileContractID \<Rightarrow> bool \<Rightarrow> FileContractID option" where
  "resolveID_loop c i newID exists =
     (if exists
      then (case lookupID (renewedIDs c) newID of (newID', exists') \<Rightarrow> resolveID_loop c newID newID' exists')
      else Some i)"

definition resolveID :: "Contractor \<Rightarrow> FileContractID \<Rightarrow> FileContractID option" where
  "resolveID c i = (case lookupID (renewedIDs c) i of (newID, exists) \<Rightarrow> resolveID_loop c i newID exists)"

text \<open>\<^verbatim>\<open>ResolveID\<close> takes the read lock of the contractor around \<^verbatim>\<open>resolveID\<close>.\<close>

definition ResolveID :: "Contractor \<Rightarrow> FileContractID \<Rightarrow> FileContractID option" where
  "ResolveID c i = resolveID c i"

text \<open>The chain of renewals that starts at an id is finite: it reaches an id with no entry.\<close>

inductive chain_ends :: "(FileContractID \<rightharpoonup> FileContractID) \<Rightarrow> FileContractID \<Rightarrow> bool"
  for m :: "FileContractID \<rightharpoonup> FileContractID" where
  chain_stop: "m i = None \<Longrightarrow> chain_ends m i"
| chain_step: "m i = Some n \<Longrightarrow> chain_ends m n \<Longrightarrow> chain_ends m i"

text \<open>
  The outside world of \<^verbatim>\<open>newContractor\<close> is a value \<open>w\<close> that the calls pass along: the
  persisted data behind \<^verbatim>\<open>c.load()\<close> and \<^verbatim>\<open>c.save()\<close>, and the consensus set behind
  \<^verbatim>\<open>cs.ConsensusSetSubscribe\<close>, which calls back into the contractor and so returns it
  changed. These calls, \<^verbatim>\<open>os.IsNotExist\<close>, \<^verbatim>\<open>err.Error()\<close> and the constant
  \<^verbatim>\<open>modules.ConsensusChangeBeginning\<close> are parameters. The callbacks that \<^verbatim>\<open>newContractor\<close>
  registers with the thread group run at shutdown and are left out.
\<close>

record 'w deps =
  ConsensusChangeBeginning :: ConsensusChangeID
  load :: "Contractor \<Rightarrow> 'w \<Rightarrow> error option \<times> Contractor \<times> 'w"
  IsNotExist :: "error \<Rightarrow> bool"
  ConsensusSetSubscribe :: "Contractor \<Rightarrow> ConsensusChangeID \<Rightarrow> 'w \<Rightarrow> error option \<times> Contractor \<times> 'w"
  save :: "Contractor \<Rightarrow> 'w \<Rightarrow> error option \<times> 'w"
  ErrorText :: "error \<Rightarrow> string"

text \<open>
  The contractor that \<^verbatim>\<open>newContractor\<close> creates: its maps are empty and its other fields have
  their zero values.
\<close>

definition emptyContractor :: Contractor where
  "emptyContractor = \<lparr>blockHeight = 0, currentPeriod = 0, lastChange = 0,
     renewing = Map.empty, revising = Map.empty, contractUtilities = Map.empty,
     renewedIDs = Map.empty\<rparr>"

text \<open>
  \<^verbatim>\<open>newContractor\<close>: load, subscribe, subscribe again after a reset when the first error is
  \<^verbatim>\<open>modules.ErrInvalidConsensusChangeID\<close>, give up on any error that remains, save. The result
  is the error (\<^verbatim>\<open>nil, err\<close>) or the contractor (\<^verbatim>\<open>c, nil\<close>), with the world as the calls
  left it.
\<close>

definition newContractor :: "'w deps \<Rightarrow> 'w \<Rightarrow> (error + Contractor) \<times> 'w" where
  "newContractor D w =
     (let c = emptyContractor in
      case load D c w of
        (err, c, w) \<Rightarrow>
          (case (case err of None \<Rightarrow> None | Some e \<Rightarrow> if \<not> IsNotExist D e then Some e else None) of
             Some e \<Rightarrow> (Inl e, w)
           | None \<Rightarrow>
               (case ConsensusSetSubscribe D c (lastChange c) w of
                  (err, c, w) \<Rightarrow>
                    (case (if err = Some ErrInvalidConsensusChangeID
                           then (let c = c\<lparr>blockHeight := 0\<rparr>;
                                     c = c\<lparr>lastChange := ConsensusChangeBeginning D\<rparr>
                                 in ConsensusSetSubscribe D c (lastChange c) w)
                           else (err, c, w)) of
                       (err, c, w) \<Rightarrow>
                         (case err of
                            Some e \<Rightarrow>
                              (Inl (Error (''contractor subscription failed: '' @ ErrorText D e)), w)
                          | None \<Rightarrow>
                              (case save D c w of
                                 (err, w) \<Rightarrow>
                                   (case err of Some e \<Rightarrow> (Inl e, w) | None \<Rightarrow> (Inr c, w))))))))"

section \<open>Executable definitions and example states\<close>

declare backtrackToCurrentPath.simps [code]
declare resolveID_loop.simps [code]

code_pred chain_ends .
code_pred fork_to_path .

text \<open>
  A small world for the examples: the id of a block is its nonce; the blocks with a nonce
  below 20 have target 4 and the others target 2, so that a block of the second kind weighs
  twice a block of the first; every block creates one output, whose id is the nonce plus
  100; and the lock counts its readers.
\<close>

definition exampleDiffs :: "nat \<Rightarrow> SiacoinOutputDiff list" where
  "exampleDiffs n = [\<lparr>New = True, OutputID = of_nat (n + 100), Output = \<lparr>Value = 50, UnlockHash = 0\<rparr>\<rparr>]"

definition E0 :: "nat env" where
  "E0 = \<lparr>DEBUG = False, ID = (\<lambda>b. of_nat (Nonce b)),
          RLock = (\<lambda>m label. (int m, Suc m)), RUnlock = (\<lambda>m label counter. m - 1),
          BlockSizeLimit = 1000000, Marshal = ArbitraryData,
          FollowsStorageProofRules = (\<lambda>t. None), validFileContracts = (\<lambda>s t. None),
          validStorageProofs = (\<lambda>s t. None), validSignatures = (\<lambda>s t. None),
          childTarget = (\<lambda>p b. if Nonce b < 20 then 4 else 2),
          generateDiffs = (\<lambda>s b. Inr (exampleDiffs (Nonce b)))\<rparr>"

definition blk :: "nat \<Rightarrow> nat \<Rightarrow> Block" where
  "blk p n = \<lparr>ParentID = of_nat p, Nonce = n, Timestamp = 0, Transactions = []\<rparr>"

definition exampleNode ::
  "nat \<Rightarrow> nat \<Rightarrow> BlockID option \<Rightarrow> BlockID list \<Rightarrow> nat \<Rightarrow> Target \<Rightarrow> rat \<Rightarrow> bool \<Rightarrow> blockNode" where
  "exampleNode p n par kids h t d gen =
     \<lparr>block = blk p n, parent = par, children = kids, height = h, target = t, depth = d,
      diffsGenerated = gen, siacoinOutputDiffs = (if gen then exampleDiffs n else [])\<rparr>"

definition s_gen :: "nat State" where
  "s_gen = \<lparr>blockMap = [10 \<mapsto> exampleNode 0 10 None [] 0 4 (1 / 4) False], currentPath = [10],
     siacoinOutputs = [], siafundOutputs = [], fileContracts = [], mu = 0\<rparr>"

definition chainA :: "Block list" where
  "chainA = [blk 10 11, blk 11 12, blk 12 13, blk 13 14, blk 14 15]"

definition chainB :: "Block list" where
  "chainB = [blk 12 23, blk 23 24, blk 24 25, blk 25 26, blk 26 27]"

text \<open>
  The state after the blocks of \<open>chainA\<close> (ids 11 to 15, on the genesis block 10) and then the
  blocks of \<open>chainB\<close> (ids 23 to 27, on block 12) have been inserted: the second chain is the
  heavier one from block 24 on, and the current path runs over it. The blocks 13 to 15 have
  been on the path and have their diffs; their outputs have left the ledger again.
\<close>

definition exampleOutput :: "nat \<Rightarrow> SiacoinOutputID \<times> SiacoinOutput" where
  "exampleOutput n = (of_nat (n + 100), \<lparr>Value = 50, UnlockHash = 0\<rparr>)"

definition s_fork :: "nat State" where
  "s_fork = \<lparr>blockMap =
       [10 \<mapsto> exampleNode 0 10 None [11] 0 4 (1 / 4) False,
        11 \<mapsto> exampleNode 10 11 (Some 10) [12] 1 4 (1 / 2) True,
        12 \<mapsto> exampleNode 11 12 (Some 11) [13, 23] 2 4 (3 / 4) True,
        13 \<mapsto> exampleNode 12 13 (Some 12) [14] 3 4 1 True,
        14 \<mapsto> exampleNode 13 14 (Some 13) [15] 4 4 (5 / 4) True,
        15 \<mapsto> exampleNode 14 15 (Some 14) [] 5 4 (3 / 2) True,
        23 \<mapsto> exampleNode 12 23 (Some 12) [24] 3 2 (5 / 4) True,
        24 \<mapsto> exampleNode 23 24 (Some 23) [25] 4 2 (7 / 4) True,
        25 \<mapsto> exampleNode 24 25 (Some 24) [26] 5 2 (9 / 4) True,
        26 \<mapsto> exampleNode 25 26 (Some 25) [27] 6 2 (11 / 4) True,
        27 \<mapsto> exampleNode 26 27 (Some 26) [] 7 2 (13 / 4) True],
     currentPath = [10, 11, 12, 23, 24, 25, 26, 27],
     siacoinOutputs = map exampleOutput [11, 12, 23, 24, 25, 26, 27],
     siafundOutputs = [], fileContracts = [], mu = 0\<rparr>"

text \<open>A ledger with one siacoin output and one siafund output, and two transactions.\<close>

definition s_ledger :: "nat State" where
  "s_ledger = s_gen\<lparr>siacoinOutputs := [(5, \<lparr>Value = 100, UnlockHash = 7\<rparr>)],
                    siafundOutputs := [(6, \<lparr>Value = 1, UnlockHash = 8, ClaimStart = 0\<rparr>)]\<rparr>"

definition tx_large :: Transaction where
  "tx_large = \<lparr>SiacoinInputs = [], SiacoinOutputs = [], ContractRefs = [],
                ArbitraryData = replicate 995001 0\<rparr>"

definition tx_missing :: Transaction where
  "tx_missing = \<lparr>SiacoinInputs = [9], SiacoinOutputs = [], ContractRefs = [], ArbitraryData = []\<rparr>"

text \<open>A contractor with two renewals, and a world in which the first subscription fails.\<close>

definition renewals_example :: Contractor where
  "renewals_example = \<lparr>blockHeight = 0, currentPeriod = 0, lastChange = 0,
     renewing = Map.empty, revising = Map.empty, contractUtilities = Map.empty,
     renewedIDs = [1 \<mapsto> 2, 2 \<mapsto> 3]\<rparr>"

definition D0 :: "ConsensusChangeID list deps" where
  "D0 = \<lparr>ConsensusChangeBeginning = 0,
          load = (\<lambda>c w. (None, c\<lparr>blockHeight := 7, lastChange := 42\<rparr>, w)),
          IsNotExist = (\<lambda>e. False),
          ConsensusSetSubscribe = (\<lambda>c i w. (if i = 0 then None else Some ErrInvalidConsensusChangeID, c, w @ [i])),
          save = (\<lambda>c w. (None, w)),
          ErrorText = (\<lambda>e. case e of Error m \<Rightarrow> m | Panic m \<Rightarrow> m | ErrInvalidConsensusChangeID \<Rightarrow> ''invalid consensus change id'')\<rparr>"

section \<open>The invariant of the block tree\<close>

text \<open>
  The invariant holds of the genesis state; every insertion keeps it, and so does every
  change of the diffs, the ledger maps and the lock; the walk back to the current path
  returns on every state that has it, with the nodes from the common ancestor to the node it
  started from.
\<close>

lemma tree_inv_genesis:
  assumes "parent n = None" "blockNode.height n = 0" "blockMap s = [ID E (block n) \<mapsto> n]"
    "currentPath s = [ID E (block n)]"
  shows "tree_inv E s"
  using assms by (auto simp: tree_inv_def split: if_splits)

lemma tree_inv_cong:
  "blockMap s' = blockMap s \<Longrightarrow> currentPath s' = currentPath s \<Longrightarrow> tree_inv E s' = tree_inv E s"
  unfolding tree_inv_def by simp

lemma same_node_refl: "same_node n n"
  by (simp add: same_node_def)

lemma same_node_fields:
  "same_node n n' \<Longrightarrow> block n' = block n \<and> parent n' = parent n \<and> children n' = children n
     \<and> blockNode.height n' = blockNode.height n \<and> target n' = target n \<and> depth n' = depth n"
  by (cases n, cases n') (simp add: same_node_def)

lemma same_node_trans: "same_node a b \<Longrightarrow> same_node b c \<Longrightarrow> same_node a c"
  by (cases a, cases b, cases c) (simp add: same_node_def)

lemma same_node_diffs:
  "same_node n (n\<lparr>diffsGenerated := g, siacoinOutputDiffs := ds\<rparr>)"
  by (simp add: same_node_def)

lemma same_tree_refl: "same_tree s s"
  by (simp add: same_tree_def same_node_refl option.rel_refl)

lemma same_tree_eq:
  "blockMap s' = blockMap s \<Longrightarrow> currentPath s' = currentPath s \<Longrightarrow> same_tree s s'"
  by (simp add: same_tree_def same_node_refl option.rel_refl)

lemma same_tree_trans:
  assumes "same_tree a b" "same_tree b c"
  shows "same_tree a c"
proof -
  have "\<And>k. rel_option same_node (blockMap a k) (blockMap c k)"
  proof -
    fix k
    have 1: "rel_option same_node (blockMap a k) (blockMap b k)"
      and 2: "rel_option same_node (blockMap b k) (blockMap c k)"
      using assms by (simp_all add: same_tree_def)
    show "rel_option same_node (blockMap a k) (blockMap c k)"
    proof (cases "blockMap a k")
      case None
      with 1 have "blockMap b k = None" by (cases "blockMap b k") simp_all
      with 2 have "blockMap c k = None" by (cases "blockMap c k") simp_all
      with None show ?thesis by simp
    next
      case (Some x)
      with 1 obtain y where y: "blockMap b k = Some y" "same_node x y"
        by (cases "blockMap b k") simp_all
      with 2 obtain z where z: "blockMap c k = Some z" "same_node y z"
        by (cases "blockMap c k") simp_all
      from y(2) z(2) have "same_node x z" by (rule same_node_trans)
      with Some z(1) show ?thesis by simp
    qed
  qed
  then show ?thesis using assms by (simp add: same_tree_def)
qed

lemma same_tree_forward:
  assumes "same_tree s s'" "blockMap s k = Some n"
  shows "\<exists>n'. blockMap s' k = Some n' \<and> same_node n n'"
proof -
  have "rel_option same_node (blockMap s k) (blockMap s' k)" using assms(1) by (simp add: same_tree_def)
  with assms(2) show ?thesis by (cases "blockMap s' k") simp_all
qed

lemma same_tree_backward:
  assumes "same_tree s s'" "blockMap s' k = Some n'"
  shows "\<exists>n. blockMap s k = Some n \<and> same_node n n'"
proof -
  have "rel_option same_node (blockMap s k) (blockMap s' k)" using assms(1) by (simp add: same_tree_def)
  with assms(2) show ?thesis by (cases "blockMap s k") simp_all
qed

lemma tree_inv_same_tree:
  assumes inv: "tree_inv E s" and st: "same_tree s s'"
  shows "tree_inv E s'"
proof -
  have path: "currentPath s' = currentPath s" using st by (simp add: same_tree_def)
  have c1: "currentPath s' \<noteq> []" using inv by (simp add: tree_inv_def path)
  have c2: "\<forall>i < length (currentPath s'). \<exists>n. blockMap s' (currentPath s' ! i) = Some n \<and> blockNode.height n = i"
  proof (intro allI impI)
    fix i assume "i < length (currentPath s')"
    then obtain n where n: "blockMap s (currentPath s ! i) = Some n" "blockNode.height n = i"
      using inv by (auto simp: tree_inv_def path)
    from same_tree_forward [OF st n(1)] obtain n' where "blockMap s' (currentPath s ! i) = Some n'"
      "same_node n n'" by blast
    with n(2) same_node_fields [of n n']
    show "\<exists>n. blockMap s' (currentPath s' ! i) = Some n \<and> blockNode.height n = i"
      by (simp add: path)
  qed
  have c3: "\<forall>k n. blockMap s' k = Some n \<longrightarrow> ID E (block n) = k"
  proof (intro allI impI)
    fix k n' assume "blockMap s' k = Some n'"
    from same_tree_backward [OF st this] obtain n where "blockMap s k = Some n" "same_node n n'"
      by blast
    with inv same_node_fields [of n n'] show "ID E (block n') = k" by (simp add: tree_inv_def)
  qed
  have c4: "\<forall>k n. blockMap s' k = Some n \<longrightarrow> parent n = None \<longrightarrow>
        blockNode.height n = 0 \<and> k = currentPath s' ! 0"
  proof (intro allI impI)
    fix k n' assume a: "blockMap s' k = Some n'" "parent n' = None"
    from same_tree_backward [OF st a(1)] obtain n where n: "blockMap s k = Some n" "same_node n n'"
      by blast
    from same_node_fields [OF n(2)] a(2) have "parent n = None" by simp
    with inv n(1) have "blockNode.height n = 0 \<and> k = currentPath s ! 0" by (simp add: tree_inv_def)
    with same_node_fields [OF n(2)] show "blockNode.height n' = 0 \<and> k = currentPath s' ! 0"
      by (simp add: path)
  qed
  have c5: "\<forall>k n pid. blockMap s' k = Some n \<longrightarrow> parent n = Some pid \<longrightarrow>
        (\<exists>q. blockMap s' pid = Some q \<and> blockNode.height n = blockNode.height q + 1)"
  proof (intro allI impI)
    fix k n' pid assume a: "blockMap s' k = Some n'" "parent n' = Some pid"
    from same_tree_backward [OF st a(1)] obtain n where n: "blockMap s k = Some n" "same_node n n'"
      by blast
    from same_node_fields [OF n(2)] a(2) have "parent n = Some pid" by simp
    with inv n(1) obtain q where q: "blockMap s pid = Some q" "blockNode.height n = blockNode.height q + 1"
      unfolding tree_inv_def by blast
    from same_tree_forward [OF st q(1)] obtain q' where q': "blockMap s' pid = Some q'" "same_node q q'"
      by blast
    with q(2) same_node_fields [OF n(2)] same_node_fields [OF q'(2)]
    show "\<exists>q. blockMap s' pid = Some q \<and> blockNode.height n' = blockNode.height q + 1"
      by simp
  qed
  show ?thesis unfolding tree_inv_def using c1 c2 c3 c4 c5 by blast
qed

lemma applyBlock_same_tree: "applyBlock E s i = Inr s' \<Longrightarrow> same_tree s s'"
proof -
  assume a: "applyBlock E s i = Inr s'"
  then obtain node where node: "blockMap s i = Some node"
    by (auto simp: applyBlock_def split: option.splits)
  show ?thesis
  proof (cases "diffsGenerated node")
    case True
    with a node have "s' = applyDiffs node s" by (simp add: applyBlock_def)
    then show ?thesis by (simp add: applyDiffs_def same_tree_eq)
  next
    case False
    with a node obtain ds where "generateDiffs E s (block node) = Inr ds"
      and s': "s' = applyDiffs (node\<lparr>diffsGenerated := True, siacoinOutputDiffs := ds\<rparr>)
                 (s\<lparr>blockMap := (blockMap s)(i \<mapsto> node\<lparr>diffsGenerated := True, siacoinOutputDiffs := ds\<rparr>)\<rparr>)"
      by (auto simp: applyBlock_def Let_def split: sum.splits)
    show ?thesis
      using node by (simp add: s' applyDiffs_def same_tree_def same_node_diffs same_node_refl option.rel_refl)
  qed
qed

lemma applyBlocks_same_tree: "applyBlocks E s ids = Inr s' \<Longrightarrow> same_tree s s'"
proof (induction ids arbitrary: s)
  case Nil
  then show ?case by (simp add: same_tree_refl)
next
  case (Cons i ids)
  from Cons.prems obtain s1 where 1: "applyBlock E s i = Inr s1" "applyBlocks E s1 ids = Inr s'"
    by (auto split: sum.splits)
  from applyBlock_same_tree [OF 1(1)] Cons.IH [OF 1(2)] show ?case by (rule same_tree_trans)
qed

lemma revertBlock_same_tree: "revertBlock s i = Inr s' \<Longrightarrow> same_tree s s'"
  by (auto simp: revertBlock_def revertDiffs_def same_tree_eq split: option.splits)

lemma revertBlocks_same_tree: "revertBlocks s ids = Inr s' \<Longrightarrow> same_tree s s'"
proof (induction ids arbitrary: s)
  case Nil
  then show ?case by (simp add: same_tree_refl)
next
  case (Cons i ids)
  from Cons.prems obtain s1 where 1: "revertBlock s i = Inr s1" "revertBlocks s1 ids = Inr s'"
    by (auto split: sum.splits)
  from revertBlock_same_tree [OF 1(1)] Cons.IH [OF 1(2)] show ?case by (rule same_tree_trans)
qed

lemma on_path_iff:
  assumes "tree_inv E s" "blockMap s k = Some bn"
  shows "index (currentPath s) (blockNode.height bn) = Inr (ID E (block bn)) \<longleftrightarrow> k \<in> set (currentPath s)"
proof
  assume "index (currentPath s) (blockNode.height bn) = Inr (ID E (block bn))"
  then have "blockNode.height bn < length (currentPath s)" "currentPath s ! blockNode.height bn = ID E (block bn)"
    by (auto simp: index_def split: if_splits)
  moreover have "ID E (block bn) = k" using assms by (auto simp: tree_inv_def)
  ultimately show "k \<in> set (currentPath s)" by (metis nth_mem)
next
  assume "k \<in> set (currentPath s)"
  then obtain i where i: "i < length (currentPath s)" "currentPath s ! i = k"
    by (auto simp: in_set_conv_nth)
  with assms have "blockNode.height bn = i" by (auto simp: tree_inv_def)
  moreover have "ID E (block bn) = k" using assms by (auto simp: tree_inv_def)
  ultimately show "index (currentPath s) (blockNode.height bn) = Inr (ID E (block bn))"
    using i by (simp add: index_def)
qed

lemma on_path_height:
  assumes "tree_inv E s" "blockMap s k = Some n" "k \<in> set (currentPath s)"
  shows "blockNode.height n < length (currentPath s) \<and> currentPath s ! blockNode.height n = k"
proof -
  from assms(3) obtain i where i: "i < length (currentPath s)" "currentPath s ! i = k"
    by (auto simp: in_set_conv_nth)
  with assms(1,2) have "blockNode.height n = i" by (auto simp: tree_inv_def)
  with i show ?thesis by simp
qed

lemma tree_inv_id: "tree_inv E s \<Longrightarrow> blockMap s k = Some n \<Longrightarrow> ID E (block n) = k"
  by (simp add: tree_inv_def)

lemma tree_inv_path_node:
  assumes "tree_inv E s" "h < length (currentPath s)"
  shows "\<exists>n. blockMap s (currentPath s ! h) = Some n \<and> blockNode.height n = h"
  using assms by (simp add: tree_inv_def)

lemma backtrack_returns:
  assumes inv: "tree_inv E s"
  shows "blockMap s k = Some bn \<Longrightarrow>
    \<exists>anc mid. backtrackToCurrentPath E s bn acc = Some (Inr (anc # mid @ acc))
      \<and> blockMap s (ID E (block anc)) = Some anc
      \<and> ID E (block anc) \<in> set (currentPath s)
      \<and> blockNode.height bn = blockNode.height anc + length mid
      \<and> (\<forall>j < length mid. blockMap s (ID E (block (mid ! j))) = Some (mid ! j)
             \<and> blockNode.height (mid ! j) = blockNode.height anc + 1 + j)
      \<and> fork_to_path s k (map (\<lambda>n. ID E (block n)) (rev mid)) (ID E (block anc))"
proof (induction "blockNode.height bn" arbitrary: bn k acc rule: less_induct)
  case less
  have idk: "ID E (block bn) = k" using inv less.prems by (auto simp: tree_inv_def)
  show ?case
  proof (cases "k \<in> set (currentPath s)")
    case True
    then have "index (currentPath s) (blockNode.height bn) = Inr (ID E (block bn))"
      using on_path_iff [OF inv less.prems] by simp
    then have "backtrackToCurrentPath E s bn acc = Some (Inr (bn # [] @ acc))"
      by (simp add: backtrackToCurrentPath.simps [of E s bn acc])
    moreover have "fork_to_path s k [] k" using True by (rule fork_on_path)
    ultimately show ?thesis using less.prems idk True
      by (intro exI [of _ bn] exI [of _ "[]"]) simp
  next
    case False
    then have off: "index (currentPath s) (blockNode.height bn) \<noteq> Inr (ID E (block bn))"
      using on_path_iff [OF inv less.prems] by simp
    have "parent bn \<noteq> None"
    proof
      assume "parent bn = None"
      with inv less.prems have "k = currentPath s ! 0" by (force simp: tree_inv_def)
      moreover have "currentPath s \<noteq> []" using inv by (simp add: tree_inv_def)
      ultimately show False using False by (metis length_greater_0_conv nth_mem)
    qed
    then obtain pid where pid: "parent bn = Some pid" by blast
    with inv less.prems obtain p where p: "blockMap s pid = Some p"
      "blockNode.height bn = blockNode.height p + 1"
      by (force simp: tree_inv_def)
    have "blockNode.height p < blockNode.height bn" using p by simp
    from less.hyps [OF this p(1), of "bn # acc"]
    obtain anc mid where r:
      "backtrackToCurrentPath E s p (bn # acc) = Some (Inr (anc # mid @ bn # acc))"
      "blockMap s (ID E (block anc)) = Some anc"
      "ID E (block anc) \<in> set (currentPath s)"
      "blockNode.height p = blockNode.height anc + length mid"
      "\<forall>j < length mid. blockMap s (ID E (block (mid ! j))) = Some (mid ! j)
             \<and> blockNode.height (mid ! j) = blockNode.height anc + 1 + j"
      "fork_to_path s pid (map (\<lambda>n. ID E (block n)) (rev mid)) (ID E (block anc))"
      by blast
    have bt: "backtrackToCurrentPath E s bn acc = Some (Inr (anc # (mid @ [bn]) @ acc))"
      using off pid p(1) r(1) by (simp add: backtrackToCurrentPath.simps [of E s bn acc])
    have fk: "fork_to_path s k (map (\<lambda>n. ID E (block n)) (rev (mid @ [bn]))) (ID E (block anc))"
      using fork_off_path [OF False less.prems pid r(6)] idk by simp
    have hs: "\<forall>j < length (mid @ [bn]). blockMap s (ID E (block ((mid @ [bn]) ! j))) = Some ((mid @ [bn]) ! j)
             \<and> blockNode.height ((mid @ [bn]) ! j) = blockNode.height anc + 1 + j"
      using r(5) r(4) p(2) idk less.prems by (auto simp: nth_append)
    have hb: "blockNode.height bn = blockNode.height anc + length (mid @ [bn])"
      using r(4) p(2) by simp
    show ?thesis
      using bt fk hs hb r(2,3) by blast
  qed
qed

lemma tree_inv_add_node:
  assumes inv: "tree_inv E s"
    and fresh: "blockMap s (ID E b) = None"
    and par: "blockMap s (ParentID b) = Some p"
    and node: "block node = b" "parent node = Some (ParentID b)"
      "blockNode.height node = blockNode.height p + 1"
    and p': "block p' = block p" "parent p' = parent p" "blockNode.height p' = blockNode.height p"
    and s1: "blockMap s1 = (blockMap s)(ParentID b \<mapsto> p', ID E b \<mapsto> node)"
      "currentPath s1 = currentPath s"
  shows "tree_inv E s1"
proof -
  have ne: "ID E b \<noteq> ParentID b" using fresh par by auto
  have look: "\<And>k n. blockMap s1 k = Some n \<Longrightarrow>
      (k = ID E b \<and> n = node) \<or> (k = ParentID b \<and> n = p') \<or> (k \<noteq> ID E b \<and> k \<noteq> ParentID b \<and> blockMap s k = Some n)"
    by (auto simp: s1 split: if_splits)
  have old: "\<And>k n. blockMap s k = Some n \<Longrightarrow>
      \<exists>n'. blockMap s1 k = Some n' \<and> block n' = block n \<and> parent n' = parent n
            \<and> blockNode.height n' = blockNode.height n"
    using fresh par p' by (auto simp: s1)
  have c1: "currentPath s1 \<noteq> []" using inv by (simp add: tree_inv_def s1)
  have c2: "\<forall>i < length (currentPath s1). \<exists>n. blockMap s1 (currentPath s1 ! i) = Some n \<and> blockNode.height n = i"
  proof (intro allI impI)
    fix i assume "i < length (currentPath s1)"
    then obtain n where "blockMap s (currentPath s ! i) = Some n" "blockNode.height n = i"
      using inv by (auto simp: tree_inv_def s1)
    with old [of "currentPath s ! i" n] show "\<exists>n. blockMap s1 (currentPath s1 ! i) = Some n \<and> blockNode.height n = i"
      by (auto simp: s1(2))
  qed
  have c3: "\<forall>k n. blockMap s1 k = Some n \<longrightarrow> ID E (block n) = k"
  proof (intro allI impI)
    fix k n assume "blockMap s1 k = Some n"
    from look [OF this] show "ID E (block n) = k"
      using inv par node p' by (auto simp: tree_inv_def)
  qed
  have c4: "\<forall>k n. blockMap s1 k = Some n \<longrightarrow> parent n = None \<longrightarrow>
        blockNode.height n = 0 \<and> k = currentPath s1 ! 0"
  proof (intro allI impI)
    fix k n assume a: "blockMap s1 k = Some n" "parent n = None"
    from look [OF a(1)] a(2) show "blockNode.height n = 0 \<and> k = currentPath s1 ! 0"
      using inv par node p' by (auto simp: tree_inv_def s1(2))
  qed
  have c5: "\<forall>k n pid. blockMap s1 k = Some n \<longrightarrow> parent n = Some pid \<longrightarrow>
        (\<exists>q. blockMap s1 pid = Some q \<and> blockNode.height n = blockNode.height q + 1)"
  proof (intro allI impI)
    fix k n pid assume a: "blockMap s1 k = Some n" "parent n = Some pid"
    have "\<exists>q. blockMap s pid = Some q \<and> blockNode.height n = blockNode.height q + 1"
      using look [OF a(1)] a(2) inv par node p' by (auto simp: tree_inv_def)
    then obtain q where q: "blockMap s pid = Some q" "blockNode.height n = blockNode.height q + 1"
      by blast
    from old [OF q(1)] q(2)
    show "\<exists>q. blockMap s1 pid = Some q \<and> blockNode.height n = blockNode.height q + 1"
      by auto
  qed
  show ?thesis unfolding tree_inv_def using c1 c2 c3 c4 c5 by blast
qed

lemma tree_inv_reorg:
  assumes inv: "tree_inv E s"
    and anc: "blockMap s (ID E (block anc)) = Some anc" "ID E (block anc) \<in> set (currentPath s)"
    and mid: "\<forall>j < length mid. blockMap s (ID E (block (mid ! j))) = Some (mid ! j)
             \<and> blockNode.height (mid ! j) = blockNode.height anc + 1 + j"
    and s': "blockMap s' = blockMap s"
      "currentPath s' = take (blockNode.height anc + 1) (currentPath s) @ map (\<lambda>n. ID E (block n)) mid"
  shows "tree_inv E s'"
proof -
  let ?h = "blockNode.height anc"
  have h: "?h < length (currentPath s)" using on_path_height [OF inv anc] by simp
  have len: "length (take (?h + 1) (currentPath s)) = ?h + 1" using h by simp
  have c1: "currentPath s' \<noteq> []" using h by (auto simp: s'(2))
  have c2: "\<forall>i < length (currentPath s'). \<exists>n. blockMap s' (currentPath s' ! i) = Some n \<and> blockNode.height n = i"
  proof (intro allI impI)
    fix i assume i: "i < length (currentPath s')"
    show "\<exists>n. blockMap s' (currentPath s' ! i) = Some n \<and> blockNode.height n = i"
    proof (cases "i < ?h + 1")
      case True
      then have "currentPath s' ! i = currentPath s ! i" "i < length (currentPath s)"
        using h by (auto simp: s'(2) nth_append)
      then show ?thesis using inv by (auto simp: tree_inv_def s'(1))
    next
      case False
      then have j: "i - (?h + 1) < length mid" using i len by (simp add: s'(2))
      have "currentPath s' ! i = ID E (block (mid ! (i - (?h + 1))))"
        using False j len by (simp add: s'(2) nth_append)
      then show ?thesis using mid j False by (auto simp: s'(1))
    qed
  qed
  have z: "currentPath s' ! 0 = currentPath s ! 0"
    using h by (simp add: s'(2) nth_append)
  show ?thesis unfolding tree_inv_def
    using c1 c2 inv z by (simp add: s'(1) tree_inv_def)
qed

lemma addNode_lookup_new: "blockMap (addNode E s p (newNode E p b w)) (ID E b) = Some (newNode E p b w)"
  by (simp add: addNode_def newNode_def)

lemma tree_inv_addNode:
  assumes inv: "tree_inv E s" and fresh: "blockMap s (ID E b) = None"
    and par: "blockMap s (ParentID b) = Some p"
  shows "tree_inv E (addNode E s p (newNode E p b w))"
  by (rule tree_inv_add_node [OF inv fresh par, where node = "newNode E p b w"
        and p' = "p\<lparr>children := children p @ [ID E b]\<rparr>"])
     (simp_all add: newNode_def addNode_def)

lemma forkBlockchain_returns:
  assumes inv: "tree_inv E s" and node: "blockMap s k = Some node"
  shows "\<exists>r. forkBlockchain E s node = Some r \<and> (\<forall>s'. r = Inr s' \<longrightarrow> tree_inv E s')"
proof -
  from backtrack_returns [OF inv node, of "[]"]
  obtain anc mid where bt: "backtrackToCurrentPath E s node [] = Some (Inr (anc # mid))"
    and anc: "blockMap s (ID E (block anc)) = Some anc" "ID E (block anc) \<in> set (currentPath s)"
    and mid: "\<forall>j < length mid. blockMap s (ID E (block (mid ! j))) = Some (mid ! j)
             \<and> blockNode.height (mid ! j) = blockNode.height anc + 1 + j"
    by auto
  let ?ids = "map (\<lambda>n. ID E (block n)) mid"
  let ?h = "blockNode.height anc"
  show ?thesis
  proof (cases "revertBlocks s (rev (drop (?h + 1) (currentPath s)))")
    case (Inl e)
    then show ?thesis by (simp add: forkBlockchain_def bt)
  next
    case s1: (Inr s1)
    show ?thesis
    proof (cases "applyBlocks E s1 ?ids")
      case (Inl e)
      with s1 show ?thesis by (simp add: forkBlockchain_def bt)
    next
      case s2: (Inr s2)
      let ?sm = "s\<lparr>currentPath := take (?h + 1) (currentPath s) @ ?ids\<rparr>"
      let ?s' = "s2\<lparr>currentPath := take (?h + 1) (currentPath s2) @ ?ids\<rparr>"
      have st: "same_tree s s2"
        using revertBlocks_same_tree [OF s1] applyBlocks_same_tree [OF s2] by (rule same_tree_trans)
      have invm: "tree_inv E ?sm"
        by (intro tree_inv_reorg [OF inv anc mid]) simp_all
      have "same_tree ?sm ?s'" using st by (simp add: same_tree_def)
      with invm have "tree_inv E ?s'" by (rule tree_inv_same_tree)
      moreover have "forkBlockchain E s node = Some (Inr ?s')"
        using s1 s2 by (simp add: forkBlockchain_def bt)
      ultimately show ?thesis by simp
    qed
  qed
qed

lemma insertBlock_known:
  "blockMap s (ID E b) = Some k \<Longrightarrow> insertBlock E s b = Some (Inl (Error ''block is already known''))"
  by (simp add: insertBlock_def)

lemma insertBlock_orphan:
  "blockMap s (ID E b) = None \<Longrightarrow> blockMap s (ParentID b) = None
   \<Longrightarrow> insertBlock E s b = Some (Inl (Error ''unknown parent''))"
  by (simp add: insertBlock_def)

lemma insertBlock_no_weight:
  "blockMap s (ID E b) = None \<Longrightarrow> blockMap s (ParentID b) = Some p
   \<Longrightarrow> Inverse (childTarget E p b) = Inl e \<Longrightarrow> insertBlock E s b = Some (Inl e)"
  by (simp add: insertBlock_def)

lemma insertBlock_step:
  "blockMap s (ID E b) = None \<Longrightarrow> blockMap s (ParentID b) = Some p
   \<Longrightarrow> Inverse (childTarget E p b) = Inr w
   \<Longrightarrow> insertBlock E s b =
       (case currentBlockNode (addNode E s p (newNode E p b w)) of
          Inl e \<Rightarrow> Some (Inl e)
        | Inr hp \<Rightarrow>
            (case deref hp of
               Inl e \<Rightarrow> Some (Inl e)
             | Inr head \<Rightarrow>
                 if depth (newNode E p b w) \<le> depth head
                 then Some (Inr (addNode E s p (newNode E p b w)))
                 else forkBlockchain E (addNode E s p (newNode E p b w)) (newNode E p b w)))"
  by (simp add: insertBlock_def Let_def)

lemma insertBlock_cases:
  assumes "insertBlock E s b = Some (Inr s')"
  obtains p w where "blockMap s (ID E b) = None" "blockMap s (ParentID b) = Some p"
    "Inverse (childTarget E p b) = Inr w"
    "s' = addNode E s p (newNode E p b w)
     \<or> forkBlockchain E (addNode E s p (newNode E p b w)) (newNode E p b w) = Some (Inr s')"
proof (cases "blockMap s (ID E b)")
  case (Some k)
  with assms show ?thesis by (simp add: insertBlock_known)
next
  case fresh: None
  show ?thesis
  proof (cases "blockMap s (ParentID b)")
    case None
    with assms fresh show ?thesis by (simp add: insertBlock_orphan)
  next
    case par: (Some p)
    show ?thesis
    proof (cases "Inverse (childTarget E p b)")
      case (Inl e)
      with assms fresh par show ?thesis by (simp add: insertBlock_no_weight)
    next
      case w: (Inr w)
      have "s' = addNode E s p (newNode E p b w)
        \<or> forkBlockchain E (addNode E s p (newNode E p b w)) (newNode E p b w) = Some (Inr s')"
        using assms unfolding insertBlock_step [OF fresh par w]
        by (simp split: sum.splits if_splits)
      with fresh par w show ?thesis by (rule that)
    qed
  qed
qed

lemma tree_inv_insertBlock:
  assumes inv: "tree_inv E s" and ins: "insertBlock E s b = Some (Inr s')"
  shows "tree_inv E s'"
proof -
  from ins obtain p w where fresh: "blockMap s (ID E b) = None"
    and par: "blockMap s (ParentID b) = Some p"
    and r: "s' = addNode E s p (newNode E p b w)
     \<or> forkBlockchain E (addNode E s p (newNode E p b w)) (newNode E p b w) = Some (Inr s')"
    by (rule insertBlock_cases)
  have inv1: "tree_inv E (addNode E s p (newNode E p b w))"
    by (rule tree_inv_addNode [OF inv fresh par])
  from r show ?thesis
  proof
    assume "s' = addNode E s p (newNode E p b w)" with inv1 show ?thesis by simp
  next
    assume "forkBlockchain E (addNode E s p (newNode E p b w)) (newNode E p b w) = Some (Inr s')"
    with forkBlockchain_returns [OF inv1 addNode_lookup_new] show ?thesis by auto
  qed
qed

lemma reachable_tree_inv: "reachable E s \<Longrightarrow> tree_inv E s"
proof (induction rule: reachable.induct)
  case (reachable_genesis n s)
  then show ?case by (rule tree_inv_genesis)
next
  case (reachable_insert s b s')
  then show ?case by (blast intro: tree_inv_insertBlock)
next
  case (reachable_diffs s s')
  then show ?case by (blast intro: tree_inv_same_tree)
qed

lemma insertBlock_returns:
  assumes inv: "tree_inv E s"
  shows "\<exists>r. insertBlock E s b = Some r"
proof (cases "blockMap s (ID E b)")
  case (Some k) then show ?thesis by (simp add: insertBlock_known)
next
  case fresh: None
  show ?thesis
  proof (cases "blockMap s (ParentID b)")
    case None with fresh show ?thesis by (simp add: insertBlock_orphan)
  next
    case par: (Some p)
    show ?thesis
    proof (cases "Inverse (childTarget E p b)")
      case (Inl e) with fresh par show ?thesis by (simp add: insertBlock_no_weight)
    next
      case w: (Inr w)
      have inv1: "tree_inv E (addNode E s p (newNode E p b w))"
        by (rule tree_inv_addNode [OF inv fresh par])
      from forkBlockchain_returns [OF inv1 addNode_lookup_new]
      obtain r where "forkBlockchain E (addNode E s p (newNode E p b w)) (newNode E p b w) = Some r"
        by blast
      then show ?thesis
        unfolding insertBlock_step [OF fresh par w]
        by (simp split: sum.splits)
    qed
  qed
qed

lemma reachable_insertBlocks:
  "reachable E s \<Longrightarrow> insertBlocks E s bs = Some (Inr s') \<Longrightarrow> reachable E s'"
proof (induction bs arbitrary: s)
  case Nil
  then show ?case by simp
next
  case (Cons b bs)
  from Cons.prems(2) obtain s1 where "insertBlock E s b = Some (Inr s1)"
    "insertBlocks E s1 bs = Some (Inr s')"
    by (auto split: option.splits sum.splits)
  with Cons.IH Cons.prems(1) show ?case by (blast intro: reachable_insert)
qed

text \<open>
  The states of the consensus set are closed under generating the diffs of a node, whichever
  node it is and whatever the diffs and the ledger are.
\<close>

lemma reachable_generated:
  assumes "reachable E s" and "blockMap s k = Some n"
  shows "reachable E (s\<lparr>blockMap := (blockMap s)(k \<mapsto> n\<lparr>diffsGenerated := g, siacoinOutputDiffs := ds\<rparr>),
                         siacoinOutputs := so\<rparr>)"
proof -
  have "same_tree s (s\<lparr>blockMap := (blockMap s)(k \<mapsto> n\<lparr>diffsGenerated := g, siacoinOutputDiffs := ds\<rparr>),
                         siacoinOutputs := so\<rparr>)"
    using assms(2) by (simp add: same_tree_def same_node_diffs same_node_refl option.rel_refl)
  with assms(1) show ?thesis by (rule reachable_diffs)
qed

section \<open>Facts about the queries\<close>

lemma with_RLock_eq:
  "with_RLock E label s body =
     (fst (body (s\<lparr>mu := snd (RLock E (mu s) label)\<rparr>)),
      (snd (body (s\<lparr>mu := snd (RLock E (mu s) label)\<rparr>)))
        \<lparr>mu := RUnlock E (mu (snd (body (s\<lparr>mu := snd (RLock E (mu s) label)\<rparr>)))) label
                 (fst (RLock E (mu s) label))\<rparr>)"
  by (simp add: with_RLock_def split: prod.split)

lemma fst_with_RLock:
  "fst (with_RLock E label s body) = fst (body (s\<lparr>mu := snd (RLock E (mu s) label)\<rparr>))"
  by (simp add: with_RLock_def split: prod.split)

lemma height_nonempty:
  assumes "currentPath s \<noteq> []"
  shows "height s = (length (currentPath s) - 1) mod 2 ^ 64"
proof -
  have "length (currentPath s) + 2 ^ 64 - 1 = (length (currentPath s) - 1) + 2 ^ 64"
    using assms by (cases "currentPath s") simp_all
  then show ?thesis by (simp only: height_def mod_add_self2)
qed

lemma height_le:
  "currentPath s \<noteq> [] \<Longrightarrow> height s \<le> length (currentPath s) - 1"
  using height_nonempty [of s] by (metis mod_less_eq_dividend)

lemma height_exact:
  assumes "currentPath s \<noteq> []" "length (currentPath s) < 2 ^ 63"
  shows "height s = length (currentPath s) - 1"
proof -
  have "length (currentPath s) - 1 < (2 :: nat) ^ 64" using assms(2) by simp
  then show ?thesis by (simp only: height_nonempty [OF assms(1)] mod_less)
qed

lemma height_mu [simp]: "height (s\<lparr>mu := m\<rparr>) = height s"
  by (simp add: height_def)

lemma blockAtHeight_mu [simp]: "blockAtHeight (s\<lparr>mu := m\<rparr>) h = blockAtHeight s h"
  by (simp add: blockAtHeight_def Let_def cong: sum.case_cong)

lemma currentBlockNode_mu [simp]: "currentBlockNode (s\<lparr>mu := m\<rparr>) = currentBlockNode s"
  by (simp add: currentBlockNode_def currentBlockID_def cong: sum.case_cong)

lemma tree_inv_head:
  assumes "tree_inv E s"
  shows "\<exists>n. blockMap s (currentPath s ! height s) = Some n
           \<and> currentBlockNode s = Inr (Some n)"
proof -
  have ne: "currentPath s \<noteq> []" using assms by (simp add: tree_inv_def)
  from height_le [OF ne] ne have "height s < length (currentPath s)"
    by (cases "currentPath s") auto
  with tree_inv_path_node [OF assms this] show ?thesis
    by (auto simp: currentBlockNode_def currentBlockID_def index_def)
qed

lemma blockRange_loop_ok:
  "\<forall>i \<in> set ids. bm i \<noteq> None \<Longrightarrow>
     blockRange_loop dbg bm ids = Inr (map (\<lambda>i. block (the (bm i))) ids)"
  by (induction ids) auto

lemma fork_to_path_cong:
  "fork_to_path s i r a \<Longrightarrow> blockMap s' = blockMap s \<Longrightarrow> currentPath s' = currentPath s
   \<Longrightarrow> fork_to_path s' i r a"
proof (induction rule: fork_to_path.induct)
  case (fork_on_path i)
  then show ?case by (simp add: fork_to_path.fork_on_path)
next
  case (fork_off_path i n pid rest anc)
  then show ?case by (auto intro: fork_to_path.fork_off_path)
qed

lemma fork_to_path_off:
  "fork_to_path s i r a \<Longrightarrow> i \<notin> set (currentPath s) \<Longrightarrow> r \<noteq> [] \<and> hd r = i"
  by (induction rule: fork_to_path.induct) auto

lemma fork_to_path_disjoint:
  "fork_to_path s i r a \<Longrightarrow> set r \<inter> set (currentPath s) = {}"
  by (induction rule: fork_to_path.induct) auto

lemma length_sortedUscoSet: "length (sortedUscoSet s) = 2 * length (siacoinOutputs s)"
  by (simp add: sortedUscoSet_def Let_def)

section \<open>The example states\<close>

lemmas insert_eval = E0_def blk_def exampleNode_def exampleDiffs_def exampleOutput_def s_gen_def
  chainA_def chainB_def insertBlock_def newNode_def addNode_def forkBlockchain_def
  applyBlock_def revertBlock_def applyDiffs_def revertDiffs_def applyDiff_def revertDiff_def
  currentBlockNode_def currentBlockID_def height_def index_def deref_def Inverse_def
  backtrackToCurrentPath.simps Let_def

lemmas query_eval = s_fork_def exampleNode_def exampleDiffs_def exampleOutput_def blk_def E0_def
  index_def deref_def slice_def with_RLock_eq Let_def

lemma s_gen_reachable: "reachable E0 s_gen"
  by (rule reachable_genesis [where n = "exampleNode 0 10 None [] 0 4 (1 / 4) False"])
     (simp_all add: s_gen_def exampleNode_def E0_def blk_def)

lemma s_fork_built:
  "\<exists>s. insertBlocks E0 s_gen (chainA @ chainB) = Some (Inr s)
       \<and> blockMap s_fork = blockMap s \<and> currentPath s_fork = currentPath s
       \<and> siacoinOutputs s_fork = siacoinOutputs s"
  by (simp add: insert_eval s_fork_def) (auto simp: fun_eq_iff)

lemma s_fork_reachable: "reachable E0 s_fork"
proof -
  from s_fork_built obtain s where s: "insertBlocks E0 s_gen (chainA @ chainB) = Some (Inr s)"
    "blockMap s_fork = blockMap s" "currentPath s_fork = currentPath s" by blast
  have "reachable E0 s" using s_gen_reachable s(1) by (rule reachable_insertBlocks)
  moreover have "same_tree s s_fork" using s(2,3) by (rule same_tree_eq)
  ultimately show ?thesis by (rule reachable_diffs)
qed

lemma BlocksSince_s_fork:
  "BlocksSince E0 s_fork 15 = Some (Inr ([15, 14, 13], [23, 24, 25, 26, 27]), s_fork)"
  by (simp add: BlocksSince_def backtrackToCurrentPath.simps query_eval)

lemma height_s_fork: "height s_fork = 7"
  by (simp add: height_def s_fork_def)

section \<open>The claims about the consensus state\<close>

text \<open>
  C1 (path consistency). In every state of the consensus set and for every height \<open>h\<close> up to
  the current height, \<open>blockAtHeight\<close> (and \<open>BlockAtHeight\<close>) returns, with \<open>exists = true\<close>, the
  block of the node that the block map holds for \<open>currentPath[h]\<close>, a block with that id, and
  \<open>HeightOfBlock\<close> of
  \<open>currentPath[h]\<close> returns \<open>h\<close>; for every height above the current height,
  \<open>blockAtHeight\<close> returns \<open>exists = false\<close>.
\<close>

theorem path_consistency:
  assumes "reachable E s"
  shows "(h \<le> height s \<longrightarrow>
           (\<exists>n. blockMap s (currentPath s ! h) = Some n
              \<and> ID E (block n) = currentPath s ! h
              \<and> blockAtHeight s h = Inr (block n, True)
              \<and> fst (BlockAtHeight E s h) = Inr (block n, True)
              \<and> fst (HeightOfBlock E s (currentPath s ! h)) = (h, True)))
       \<and> (height s < h \<longrightarrow>
           blockAtHeight s h = Inr (zeroBlock, False)
           \<and> fst (BlockAtHeight E s h) = Inr (zeroBlock, False))"
proof (rule conjI; rule impI)
  have inv: "tree_inv E s" using assms by (rule reachable_tree_inv)
  assume h: "h \<le> height s"
  have "currentPath s \<noteq> []" using inv by (simp add: tree_inv_def)
  from height_le [OF this] h this have hl: "h < length (currentPath s)"
    by (cases "currentPath s") auto
  from tree_inv_path_node [OF inv hl]
  obtain n where n: "blockMap s (currentPath s ! h) = Some n" "blockNode.height n = h" by blast
  have b: "blockAtHeight s h = Inr (block n, True)"
    using h hl n by (simp add: blockAtHeight_def index_def deref_def)
  have "fst (HeightOfBlock E s (currentPath s ! h)) = (h, True)"
    using n by (simp add: HeightOfBlock_def fst_with_RLock)
  with n b tree_inv_id [OF inv n(1)]
  show "\<exists>n. blockMap s (currentPath s ! h) = Some n
              \<and> ID E (block n) = currentPath s ! h
              \<and> blockAtHeight s h = Inr (block n, True)
              \<and> fst (BlockAtHeight E s h) = Inr (block n, True)
              \<and> fst (HeightOfBlock E s (currentPath s ! h)) = (h, True)"
    by (simp add: BlockAtHeight_def fst_with_RLock)
next
  assume "height s < h"
  then show "blockAtHeight s h = Inr (zeroBlock, False) \<and> fst (BlockAtHeight E s h) = Inr (zeroBlock, False)"
    by (simp add: blockAtHeight_def BlockAtHeight_def fst_with_RLock)
qed

theorem path_consistency_witness:
  "reachable E0 s_fork \<and> 3 \<le> height s_fork
   \<and> blockAtHeight s_fork 3 = Inr (blk 12 23, True)
   \<and> fst (HeightOfBlock E0 s_fork 23) = (3, True)
   \<and> height s_fork < 9 \<and> blockAtHeight s_fork 9 = Inr (zeroBlock, False)"
proof -
  have "currentPath s_fork ! 3 = 23"
    "blockMap s_fork 23 = Some (exampleNode 12 23 (Some 12) [24] 3 2 (5 / 4) True)"
    "block (exampleNode 12 23 (Some 12) [24] 3 2 (5 / 4) True) = blk 12 23"
    by (simp_all add: s_fork_def exampleNode_def)
  with path_consistency [OF s_fork_reachable, of 3] path_consistency [OF s_fork_reachable, of 9]
    s_fork_reachable height_s_fork
  show ?thesis by simp
qed

lemma BlocksSince_returns_fork:
  assumes "reachable E s" and "length (currentPath s) < 2 ^ 63"
    and "blockMap s i = Some node" and "i \<notin> set (currentPath s)"
  shows "\<exists>removedBlocks addedBlocks anc a s'.
     BlocksSince E s i = Some (Inr (removedBlocks, addedBlocks), s')
     \<and> fork_to_path s i removedBlocks anc
     \<and> removedBlocks \<noteq> [] \<and> hd removedBlocks = i
     \<and> blockMap s anc = Some a
     \<and> blockNode.height a < length (currentPath s)
     \<and> currentPath s ! blockNode.height a = anc
     \<and> addedBlocks = drop (blockNode.height a + 1) (currentPath s)
     \<and> set removedBlocks \<inter> set addedBlocks = {}"
proof -
  define s1 where "s1 = s\<lparr>mu := snd (RLock E (mu s) ''state BlocksSince'')\<rparr>"
  have eq: "blockMap s1 = blockMap s" "currentPath s1 = currentPath s" by (simp_all add: s1_def)
  have inv: "tree_inv E s" using assms(1) by (rule reachable_tree_inv)
  have inv1: "tree_inv E s1" using inv tree_inv_cong [OF eq, of E] by simp
  have node1: "blockMap s1 i = Some node" using assms(3) by (simp add: eq)
  from backtrack_returns [OF inv1 node1, of "[]"]
  obtain anc mid where bt: "backtrackToCurrentPath E s1 node [] = Some (Inr (anc # mid))"
    and anc: "blockMap s1 (ID E (block anc)) = Some anc" "ID E (block anc) \<in> set (currentPath s1)"
    and fk: "fork_to_path s1 i (map (\<lambda>n. ID E (block n)) (rev mid)) (ID E (block anc))"
    by auto
  let ?removed = "map (\<lambda>n. ID E (block n)) (rev mid)"
  let ?h = "blockNode.height anc"
  have h: "?h < length (currentPath s)" "currentPath s ! ?h = ID E (block anc)"
    using on_path_height [OF inv1 anc] by (simp_all add: eq)
  have "?h + 1 < (2 :: nat) ^ 64" using h(1) assms(2) by simp
  then have "(?h + 1) mod 2 ^ 64 = ?h + 1" by simp
  then have wrap: "(?h + 1) mod 18446744073709551616 = ?h + 1" by simp
  have sl: "slice (currentPath s) (?h + 1) (length (currentPath s)) = Inr (drop (?h + 1) (currentPath s))"
    using h(1) by (simp add: slice_def)
  have fk': "fork_to_path s i ?removed (ID E (block anc))"
    by (rule fork_to_path_cong [OF fk]) (simp_all add: eq)
  have res: "BlocksSince E s i = Some (Inr (?removed, drop (?h + 1) (currentPath s)),
               s1\<lparr>mu := RUnlock E (mu s1) ''state BlocksSince''
                          (fst (RLock E (mu s) ''state BlocksSince''))\<rparr>)"
    using node1 bt
    by (simp add: BlocksSince_def with_RLock_eq Let_def s1_def wrap sl del: One_nat_def)
  have "set (drop (?h + 1) (currentPath s)) \<subseteq> set (currentPath s)" by (rule set_drop_subset)
  with fork_to_path_disjoint [OF fk']
  have dj: "set ?removed \<inter> set (drop (?h + 1) (currentPath s)) = {}" by blast
  have a: "blockMap s (ID E (block anc)) = Some anc" using anc(1) by (simp add: eq)
  from fork_to_path_off [OF fk' assms(4)]
  have ne: "?removed \<noteq> []" and hd: "hd ?removed = i" by simp_all
  show ?thesis
    by (intro exI conjI) (rule res, rule fk', rule ne, rule hd, rule a, rule h(1), rule h(2), rule refl, rule dj)
qed

text \<open>
  C2. In every state of the consensus set, for a block id that the block map knows and that
  is off the current path, \<open>BlocksSince\<close> returns; \<open>removedBlocks\<close> is the fork of the block:
  it starts with the given id, goes down the parent links through ids off the current path,
  and ends just above the common ancestor; and \<open>addedBlocks\<close> is the current path above the
  height of the ancestor, in the order of the path; the two lists share no id. In the
  scenario of the specification, a chain of five blocks (ids 11 to 15) replaced by a heavier
  chain that shares block 12 with it (ids 23 to 27), which \<open>s_fork\<close> is, \<open>BlocksSince\<close> of
  block 15 gives the blocks 15, 14, 13 as removed and 23 to 27 as added.
\<close>

theorem BlocksSince_fork:
  "(reachable E s \<and> length (currentPath s) < 2 ^ 63
      \<and> blockMap s i = Some node \<and> i \<notin> set (currentPath s) \<longrightarrow>
      (\<exists>removedBlocks addedBlocks anc a s'.
         BlocksSince E s i = Some (Inr (removedBlocks, addedBlocks), s')
         \<and> fork_to_path s i removedBlocks anc
         \<and> removedBlocks \<noteq> [] \<and> hd removedBlocks = i
         \<and> blockMap s anc = Some a
         \<and> blockNode.height a < length (currentPath s)
         \<and> currentPath s ! blockNode.height a = anc
         \<and> addedBlocks = drop (blockNode.height a + 1) (currentPath s)
         \<and> set removedBlocks \<inter> set addedBlocks = {}))
   \<and> (\<exists>s. insertBlocks E0 s_gen (chainA @ chainB) = Some (Inr s)
          \<and> blockMap s_fork = blockMap s \<and> currentPath s_fork = currentPath s
          \<and> siacoinOutputs s_fork = siacoinOutputs s)
   \<and> BlocksSince E0 s_fork 15 = Some (Inr ([15, 14, 13], [23, 24, 25, 26, 27]), s_fork)"
proof -
  have general: "reachable E s \<and> length (currentPath s) < 2 ^ 63
      \<and> blockMap s i = Some node \<and> i \<notin> set (currentPath s) \<longrightarrow>
      (\<exists>removedBlocks addedBlocks anc a s'.
         BlocksSince E s i = Some (Inr (removedBlocks, addedBlocks), s')
         \<and> fork_to_path s i removedBlocks anc
         \<and> removedBlocks \<noteq> [] \<and> hd removedBlocks = i
         \<and> blockMap s anc = Some a
         \<and> blockNode.height a < length (currentPath s)
         \<and> currentPath s ! blockNode.height a = anc
         \<and> addedBlocks = drop (blockNode.height a + 1) (currentPath s)
         \<and> set removedBlocks \<inter> set addedBlocks = {})"
  proof
    assume a: "reachable E s \<and> length (currentPath s) < 2 ^ 63
      \<and> blockMap s i = Some node \<and> i \<notin> set (currentPath s)"
    then have "reachable E s" "length (currentPath s) < 2 ^ 63" "blockMap s i = Some node"
      "i \<notin> set (currentPath s)" by simp_all
    then show "\<exists>removedBlocks addedBlocks anc a s'.
         BlocksSince E s i = Some (Inr (removedBlocks, addedBlocks), s')
         \<and> fork_to_path s i removedBlocks anc
         \<and> removedBlocks \<noteq> [] \<and> hd removedBlocks = i
         \<and> blockMap s anc = Some a
         \<and> blockNode.height a < length (currentPath s)
         \<and> currentPath s ! blockNode.height a = anc
         \<and> addedBlocks = drop (blockNode.height a + 1) (currentPath s)
         \<and> set removedBlocks \<inter> set addedBlocks = {}"
      by (rule BlocksSince_returns_fork)
  qed
  show ?thesis
    by (intro conjI) (rule general, rule s_fork_built, rule BlocksSince_s_fork)
qed

theorem BlocksSince_fork_witness:
  "reachable E0 s_fork \<and> length (currentPath s_fork) < 2 ^ 63
   \<and> blockMap s_fork 15 = Some (exampleNode 14 15 (Some 14) [] 5 4 (3 / 2) True)
   \<and> 15 \<notin> set (currentPath s_fork)
   \<and> BlocksSince E0 s_fork 15 = Some (Inr ([15, 14, 13], [23, 24, 25, 26, 27]), s_fork)
   \<and> (\<exists>anc. fork_to_path s_fork 15 [15, 14, 13] anc)"
proof -
  have len: "length (currentPath s_fork) < 2 ^ 63" by (simp add: s_fork_def)
  have node: "blockMap s_fork 15 = Some (exampleNode 14 15 (Some 14) [] 5 4 (3 / 2) True)"
    by (simp add: s_fork_def)
  have off: "15 \<notin> set (currentPath s_fork)" by (simp add: s_fork_def)
  note th = BlocksSince_fork [where E = E0 and s = s_fork and i = 15
      and node = "exampleNode 14 15 (Some 14) [] 5 4 (3 / 2) True"]
  from th have ev: "BlocksSince E0 s_fork 15 = Some (Inr ([15, 14, 13], [23, 24, 25, 26, 27]), s_fork)"
    by simp
  from th s_fork_reachable len node off
  obtain removedBlocks addedBlocks anc s' where
    r: "BlocksSince E0 s_fork 15 = Some (Inr (removedBlocks, addedBlocks), s')"
    and f: "fork_to_path s_fork 15 removedBlocks anc"
    by blast
  from r ev have "removedBlocks = [15, 14, 13]" by simp
  with f have "\<exists>anc. fork_to_path s_fork 15 [15, 14, 13] anc" by blast
  with s_fork_reachable len node off ev show ?thesis by blast
qed

text \<open>
  C3. The claim is that \<open>SortedUtxoSet\<close> (\<open>sortedUscoSet\<close>) and \<open>sortedUsfoSet\<close> return the
  unspent outputs of the ledger, one element for each, and nothing else. On a ledger with one
  siacoin output and one siafund output the code returns two elements each: a zero-value
  output, read for the zero hash that \<^verbatim>\<open>make\<close> put into the slice of ids, and then the output
  of the ledger; with \<^verbatim>\<open>DEBUG\<close> set, \<open>sortedUsfoSet\<close> panics on the zero hash.
\<close>

theorem sorted_sets_zero_padded:
  "siacoinOutputs s_ledger = [(5, \<lparr>Value = 100, UnlockHash = 7\<rparr>)]
   \<and> fst (SortedUtxoSet E0 s_ledger) = [zeroSiacoinOutput, \<lparr>Value = 100, UnlockHash = 7\<rparr>]
   \<and> siafundOutputs s_ledger = [(6, \<lparr>Value = 1, UnlockHash = 8, ClaimStart = 0\<rparr>)]
   \<and> sortedUsfoSet E0 s_ledger = Inr [zeroSiafundOutput, \<lparr>Value = 1, UnlockHash = 8, ClaimStart = 0\<rparr>]
   \<and> sortedUsfoSet (E0\<lparr>DEBUG := True\<rparr>) s_ledger = Inl (Panic ''output doesn't exist'')"
  by (simp add: SortedUtxoSet_def sortedUscoSet_def sortedUsfoSet_def output'_def with_RLock_eq
        s_ledger_def s_gen_def E0_def Let_def word_le_def)

text \<open>
  C4. In every state of the consensus set, whose current path is a Go slice and so has fewer
  than \<open>2 ^ 63\<close> ids, \<open>BlockRange\<close> returns the error "invalid range" when \<open>start > stop\<close>
  or \<open>stop\<close> is above the current height, and otherwise no error but the
  \<open>(stop - start) + 1\<close> blocks whose ids are at the positions \<open>start\<close> to \<open>stop\<close> of the
  current path, in that order.
\<close>

theorem BlockRange_result:
  assumes "reachable E s" and "length (currentPath s) < 2 ^ 63"
  shows "(start > stop \<or> stop > height s \<longrightarrow>
            fst (BlockRange E s start stop) = Inl (Error ''invalid range''))
       \<and> (start \<le> stop \<and> stop \<le> height s \<longrightarrow>
            (\<exists>blocks. fst (BlockRange E s start stop) = Inr blocks
               \<and> length blocks = (stop - start) + 1
               \<and> (\<forall>j < length blocks. \<exists>n. blockMap s (currentPath s ! (start + j)) = Some n
                      \<and> blocks ! j = block n
                      \<and> ID E (blocks ! j) = currentPath s ! (start + j))))"
proof (rule conjI; rule impI)
  assume "start > stop \<or> stop > height s"
  then show "fst (BlockRange E s start stop) = Inl (Error ''invalid range'')"
    by (auto simp: BlockRange_def fst_with_RLock)
next
  assume a: "start \<le> stop \<and> stop \<le> height s"
  have inv: "tree_inv E s" using assms(1) by (rule reachable_tree_inv)
  have ne: "currentPath s \<noteq> []" using inv by (simp add: tree_inv_def)
  have hs: "height s = length (currentPath s) - 1" using height_exact [OF ne assms(2)] .
  have stop: "stop < length (currentPath s)" using a hs ne by (cases "currentPath s") auto
  have "stop + 1 < (2 :: nat) ^ 64" using stop assms(2) by simp
  then have wrap: "(stop + 1) mod 2 ^ 64 = stop + 1" by simp
  let ?ids = "take (stop + 1 - start) (drop start (currentPath s))"
  have sl: "slice (currentPath s) start (stop + 1) = Inr ?ids"
    using a stop by (simp add: slice_def)
  have len: "length ?ids = stop - start + 1" using a stop by (auto simp: min_def)
  have nth: "\<And>j. j < length ?ids \<Longrightarrow> ?ids ! j = currentPath s ! (start + j)"
    using a stop by simp
  have all: "\<forall>i \<in> set ?ids. blockMap s i \<noteq> None"
  proof
    fix i assume "i \<in> set ?ids"
    then have "i \<in> set (currentPath s)" by (meson in_set_dropD in_set_takeD)
    then obtain k where "k < length (currentPath s)" "currentPath s ! k = i"
      by (auto simp: in_set_conv_nth)
    with tree_inv_path_node [OF inv, of k] show "blockMap s i \<noteq> None" by auto
  qed
  let ?blocks = "map (\<lambda>i. block (the (blockMap s i))) ?ids"
  have wrap': "(stop + 1) mod 18446744073709551616 = stop + 1" using wrap by simp
  have "stop - start + 1 < (2 :: nat) ^ 63" using stop assms(2) by simp
  then have "(stop - start + 1) mod 2 ^ 64 = stop - start + 1"
    and "\<not> (2 :: nat) ^ 63 \<le> stop - start + 1" by simp_all
  then have mk: "\<not> 9223372036854775808 \<le> (stop - start + 1) mod 18446744073709551616"
    by simp
  have "stop + 1 - start = stop - start + 1" using a by arith
  with mk have mk': "\<not> 9223372036854775808 \<le> (stop + 1 - start) mod 18446744073709551616"
    by simp
  have r: "fst (BlockRange E s start stop) = Inr ?blocks"
    using a
    by (simp add: BlockRange_def fst_with_RLock wrap' mk mk' sl blockRange_loop_ok [OF all, of "DEBUG E"]
          del: One_nat_def)
  have "\<forall>j < length ?blocks. \<exists>n. blockMap s (currentPath s ! (start + j)) = Some n
                      \<and> ?blocks ! j = block n
                      \<and> ID E (?blocks ! j) = currentPath s ! (start + j)"
  proof (intro allI impI)
    fix j assume j: "j < length ?blocks"
    then have j': "j < length ?ids" by simp
    have "start + j < length (currentPath s)" using j' a stop by simp
    from tree_inv_path_node [OF inv this]
    obtain n where n: "blockMap s (currentPath s ! (start + j)) = Some n" by blast
    have "?blocks ! j = block n"
      using n nth [OF j'] j' by (simp del: length_take length_drop nth_take nth_drop)
    with n tree_inv_id [OF inv n]
    show "\<exists>n. blockMap s (currentPath s ! (start + j)) = Some n \<and> ?blocks ! j = block n
            \<and> ID E (?blocks ! j) = currentPath s ! (start + j)"
      by simp
  qed
  with r len show "\<exists>blocks. fst (BlockRange E s start stop) = Inr blocks
               \<and> length blocks = (stop - start) + 1
               \<and> (\<forall>j < length blocks. \<exists>n. blockMap s (currentPath s ! (start + j)) = Some n
                      \<and> blocks ! j = block n
                      \<and> ID E (blocks ! j) = currentPath s ! (start + j))"
    by (intro exI [of _ ?blocks]) (simp del: One_nat_def)
qed

theorem BlockRange_result_witness:
  "reachable E0 s_fork \<and> length (currentPath s_fork) < 2 ^ 63
   \<and> fst (BlockRange E0 s_fork 2 4) = Inr [blk 11 12, blk 12 23, blk 23 24]
   \<and> fst (BlockRange E0 s_fork 4 2) = Inl (Error ''invalid range'')
   \<and> fst (BlockRange E0 s_fork 5 8) = Inl (Error ''invalid range'')"
proof -
  have len: "length (currentPath s_fork) < 2 ^ 63" by (simp add: s_fork_def)
  have ev: "fst (BlockRange E0 s_fork 2 4) = Inr [blk 11 12, blk 12 23, blk 23 24]"
    by (simp add: BlockRange_def height_def query_eval)
  from BlockRange_result [OF s_fork_reachable len, where start = 4 and stop = 2]
    BlockRange_result [OF s_fork_reachable len, where start = 5 and stop = 8]
    BlockRange_result [OF s_fork_reachable len, where start = 2 and stop = 4]
    s_fork_reachable len ev height_s_fork
  show ?thesis by simp
qed

text \<open>
  C5. A transaction whose encoding is longer than \<open>BlockSizeLimit - 5000\<close> is rejected by
  \<open>ValidTransactionComponents\<close>, whatever the state and the other checks.
\<close>

theorem oversize_rejected:
  assumes "int (length (Marshal E t)) > BlockSizeLimit E - 5000"
  shows "fst (ValidTransactionComponents E s t) = Some (Error ''transaction is too large'')"
  using assms by (simp add: ValidTransactionComponents_def fst_with_RLock validTransactionComponents_def)

theorem oversize_rejected_witness:
  "int (length (Marshal E0 tx_large)) > BlockSizeLimit E0 - 5000
   \<and> fst (ValidTransactionComponents E0 s_ledger tx_large) = Some (Error ''transaction is too large'')"
proof -
  have h: "int (length (Marshal E0 tx_large)) > BlockSizeLimit E0 - 5000"
    by (simp add: E0_def tx_large_def)
  from oversize_rejected [OF h] h show ?thesis by simp
qed

text \<open>
  C6. A transaction within the size budget that passes the four checks of
  \<open>ValidTransactionComponents\<close> and spends an output that the map of unspent outputs does not
  hold passes \<open>ValidTransactionComponents\<close> and is rejected by \<open>ValidTransaction\<close>.
\<close>

theorem missing_input_split:
  assumes "int (length (Marshal E t)) \<le> BlockSizeLimit E - 5000"
    and "FollowsStorageProofRules E t = None"
    and "\<forall>m. validFileContracts E (s\<lparr>mu := m\<rparr>) t = None"
    and "\<forall>m. validStorageProofs E (s\<lparr>mu := m\<rparr>) t = None"
    and "\<forall>m. validSignatures E (s\<lparr>mu := m\<rparr>) t = None"
    and "i \<in> set (SiacoinInputs t)" and "map_of (siacoinOutputs s) i = None"
  shows "fst (ValidTransactionComponents E s t) = None
       \<and> (\<exists>e. fst (ValidTransaction E s t) = Some e)"
  using assms
  by (auto simp: ValidTransactionComponents_def ValidTransaction_def fst_with_RLock
        validTransactionComponents_def validTransaction_def)

theorem missing_input_split_witness:
  "9 \<in> set (SiacoinInputs tx_missing) \<and> map_of (siacoinOutputs s_ledger) 9 = None
   \<and> fst (ValidTransactionComponents E0 s_ledger tx_missing) = None
   \<and> fst (ValidTransaction E0 s_ledger tx_missing)
        = Some (Error ''transaction spends a nonexisting siacoin output'')"
proof -
  have 1: "int (length (Marshal E0 tx_missing)) \<le> BlockSizeLimit E0 - 5000"
    by (simp add: E0_def tx_missing_def)
  have 2: "FollowsStorageProofRules E0 tx_missing = None" by (simp add: E0_def)
  have 3: "\<forall>m. validFileContracts E0 (s_ledger\<lparr>mu := m\<rparr>) tx_missing = None" by (simp add: E0_def)
  have 4: "\<forall>m. validStorageProofs E0 (s_ledger\<lparr>mu := m\<rparr>) tx_missing = None" by (simp add: E0_def)
  have 5: "\<forall>m. validSignatures E0 (s_ledger\<lparr>mu := m\<rparr>) tx_missing = None" by (simp add: E0_def)
  have 6: "9 \<in> set (SiacoinInputs tx_missing)" by (simp add: tx_missing_def)
  have 7: "map_of (siacoinOutputs s_ledger) 9 = None" by (simp add: s_ledger_def)
  have ev: "fst (ValidTransaction E0 s_ledger tx_missing)
        = Some (Error ''transaction spends a nonexisting siacoin output'')"
    by (simp add: ValidTransaction_def validTransaction_def validTransactionComponents_def
          with_RLock_eq E0_def tx_missing_def s_ledger_def)
  from missing_input_split [OF 1 2 3 4 5 6 7] 6 7 ev show ?thesis by simp
qed

text \<open>
  C8. Each of the read queries returns a state with the same block map, current path and
  ledger maps as the state it was called on, whatever it returns; only the lock is taken
  and released. \<open>BlocksSince\<close> does so whenever it returns. The state a query returns is
  the one its body leaves, with the lock released: the statement is about the twelve bodies,
  and a body that wrote to the block map, the path or a ledger map would not satisfy it.
\<close>

theorem queries_frame:
  "unchanged s (snd (BlockAtHeight E s h))
   \<and> unchanged s (snd (Block E s i))
   \<and> unchanged s (snd (BlockRange E s start stop))
   \<and> (\<forall>r s'. BlocksSince E s i = Some (r, s') \<longrightarrow> unchanged s s')
   \<and> unchanged s (snd (BlockOutputDiffs E s i))
   \<and> unchanged s (snd (HeightOfBlock E s i))
   \<and> unchanged s (snd (SiacoinOutput E s i))
   \<and> unchanged s (snd (SiafundOutput E s i))
   \<and> unchanged s (snd (FileContract E s i))
   \<and> unchanged s (snd (SortedUtxoSet E s))
   \<and> unchanged s (snd (CurrentBlock E s))
   \<and> unchanged s (snd (Height E s))"
proof (intro conjI)
  show "unchanged s (snd (BlockAtHeight E s h))"
    by (simp add: BlockAtHeight_def with_RLock_def unchanged_def split: prod.split)
  show "unchanged s (snd (Block E s i))"
    by (simp add: Block_def with_RLock_def unchanged_def split: prod.split)
  show "unchanged s (snd (BlockRange E s start stop))"
    by (simp add: BlockRange_def with_RLock_def unchanged_def split: prod.split)
  show "\<forall>r s'. BlocksSince E s i = Some (r, s') \<longrightarrow> unchanged s s'"
    by (auto simp: BlocksSince_def with_RLock_def unchanged_def split: prod.splits option.splits)
  show "unchanged s (snd (BlockOutputDiffs E s i))"
    by (simp add: BlockOutputDiffs_def with_RLock_def unchanged_def split: prod.split)
  show "unchanged s (snd (HeightOfBlock E s i))"
    by (simp add: HeightOfBlock_def with_RLock_def unchanged_def split: prod.split)
  show "unchanged s (snd (SiacoinOutput E s i))"
    by (simp add: SiacoinOutput_def with_RLock_def unchanged_def split: prod.split)
  show "unchanged s (snd (SiafundOutput E s i))"
    by (simp add: SiafundOutput_def with_RLock_def unchanged_def split: prod.split)
  show "unchanged s (snd (FileContract E s i))"
    by (simp add: FileContract_def with_RLock_def unchanged_def split: prod.split)
  show "unchanged s (snd (SortedUtxoSet E s))"
    by (simp add: SortedUtxoSet_def with_RLock_def unchanged_def split: prod.split)
  show "unchanged s (snd (CurrentBlock E s))"
    by (simp add: CurrentBlock_def with_RLock_def unchanged_def split: prod.split)
  show "unchanged s (snd (Height E s))"
    by (simp add: Height_def with_RLock_def unchanged_def split: prod.split)
qed

theorem queries_frame_witness:
  "\<exists>r s'. BlocksSince E0 s_fork 15 = Some (r, s') \<and> unchanged s_fork s'
      \<and> unchanged s_fork (snd (BlockRange E0 s_fork 5 8))"
proof -
  from queries_frame [of s_fork E0 _ 15 5 8] BlocksSince_s_fork show ?thesis by blast
qed

text \<open>
  C9. In every state of the consensus set \<open>currentBlockWeight\<close> is the inverse of the target
  of the node at the head of the current path, a rational number: \<open>1 / target\<close> when the
  target is not zero. Two states whose current targets are equal have equal weights. In
  the examples the weight is 1/2 for the target 2 and 1/4 for the target 4.
\<close>

theorem currentBlockWeight_inverse:
  assumes "reachable E s"
  shows "\<exists>n. blockMap s (currentPath s ! height s) = Some n
           \<and> fst (CurrentTarget E s) = Inr (target n)
           \<and> currentBlockWeight s = Inverse (target n)
           \<and> (target n \<noteq> 0 \<longrightarrow> currentBlockWeight s = Inr (1 / of_nat (unat (target n))))
           \<and> (\<forall>s'. reachable E s' \<and> fst (CurrentTarget E s') = fst (CurrentTarget E s)
                 \<longrightarrow> currentBlockWeight s' = currentBlockWeight s)"
proof -
  have head: "\<And>s. reachable E s \<Longrightarrow> \<exists>n. blockMap s (currentPath s ! height s) = Some n
      \<and> fst (CurrentTarget E s) = Inr (target n) \<and> currentBlockWeight s = Inverse (target n)"
  proof -
    fix s :: "'a State" assume "reachable E s"
    then have "tree_inv E s" by (rule reachable_tree_inv)
    from tree_inv_head [OF this]
    obtain n where n: "blockMap s (currentPath s ! height s) = Some n"
      "currentBlockNode s = Inr (Some n)" by blast
    have "fst (CurrentTarget E s) = Inr (target n)"
      using n(2) by (simp add: CurrentTarget_def fst_with_RLock deref_def)
    moreover have "currentBlockWeight s = Inverse (target n)"
      using n(2) by (simp add: currentBlockWeight_def deref_def)
    ultimately show "\<exists>n. blockMap s (currentPath s ! height s) = Some n
      \<and> fst (CurrentTarget E s) = Inr (target n) \<and> currentBlockWeight s = Inverse (target n)"
      using n(1) by blast
  qed
  from head [OF assms] obtain n where n: "blockMap s (currentPath s ! height s) = Some n"
    "fst (CurrentTarget E s) = Inr (target n)" "currentBlockWeight s = Inverse (target n)"
    by blast
  have "\<forall>s'. reachable E s' \<and> fst (CurrentTarget E s') = fst (CurrentTarget E s)
                 \<longrightarrow> currentBlockWeight s' = currentBlockWeight s"
  proof (intro allI impI)
    fix s' assume a: "reachable E s' \<and> fst (CurrentTarget E s') = fst (CurrentTarget E s)"
    then have "reachable E s'" by simp
    from head [OF this] obtain n' :: blockNode where "fst (CurrentTarget E s') = Inr (target n')"
      "currentBlockWeight s' = Inverse (target n')" by blast
    with a n show "currentBlockWeight s' = currentBlockWeight s" by simp
  qed
  moreover have "target n \<noteq> 0 \<longrightarrow> currentBlockWeight s = Inr (1 / of_nat (unat (target n)))"
    using n(3) by (simp add: Inverse_def)
  ultimately show ?thesis using n by blast
qed

theorem currentBlockWeight_inverse_witness:
  "reachable E0 s_fork \<and> fst (CurrentTarget E0 s_fork) = Inr 2
   \<and> currentBlockWeight s_fork = Inr (1 / 2)
   \<and> reachable E0 s_gen \<and> fst (CurrentTarget E0 s_gen) = Inr 4
   \<and> currentBlockWeight s_gen = Inr (1 / 4)"
proof -
  have t: "fst (CurrentTarget E0 s_fork) = Inr 2"
    by (simp add: CurrentTarget_def currentBlockNode_def currentBlockID_def height_def query_eval)
  have g: "fst (CurrentTarget E0 s_gen) = Inr 4"
    by (simp add: CurrentTarget_def currentBlockNode_def currentBlockID_def height_def s_gen_def
          query_eval)
  from currentBlockWeight_inverse [OF s_fork_reachable]
  obtain n :: blockNode where "fst (CurrentTarget E0 s_fork) = Inr (target n)"
    "target n \<noteq> 0 \<longrightarrow> currentBlockWeight s_fork = Inr (1 / of_nat (unat (target n)))"
    by blast
  with t have w: "currentBlockWeight s_fork = Inr (1 / 2)" by simp
  from currentBlockWeight_inverse [OF s_gen_reachable]
  obtain m :: blockNode where "fst (CurrentTarget E0 s_gen) = Inr (target m)"
    "target m \<noteq> 0 \<longrightarrow> currentBlockWeight s_gen = Inr (1 / of_nat (unat (target m)))"
    by blast
  with g have "currentBlockWeight s_gen = Inr (1 / 4)" by simp
  with t g w s_fork_reachable s_gen_reachable show ?thesis by simp
qed

section \<open>The claims about the contractor\<close>

text \<open>
  C7. After \<^verbatim>\<open>load\<close> (which succeeds, or fails with an error that \<^verbatim>\<open>os.IsNotExist\<close>
  accepts), when the first subscription fails with \<open>ErrInvalidConsensusChangeID\<close>,
  \<open>newContractor\<close> sets \<open>blockHeight\<close> to 0 and \<open>lastChange\<close> to \<open>ConsensusChangeBeginning\<close>
  and subscribes once more, with that id; when this second subscription fails, with
  whatever error, \<open>newContractor\<close> returns an error and no contractor, and the world is the one
  the second subscription left; when it succeeds, the result is that of saving the
  contractor. When the first subscription fails with another error, \<open>newContractor\<close> returns
  an error and no contractor without subscribing again.
\<close>

theorem newContractor_resubscribes:
  assumes "load D emptyContractor w0 = (le, c1, w1)"
    and "le = None \<or> (\<exists>e. le = Some e \<and> IsNotExist D e)"
    and "ConsensusSetSubscribe D c1 (lastChange c1) w1 = (e1, c2, w2)"
    and "ConsensusSetSubscribe D (c2\<lparr>blockHeight := 0, lastChange := ConsensusChangeBeginning D\<rparr>)
           (ConsensusChangeBeginning D) w2 = (e2, c3, w3)"
  shows "(e1 = Some ErrInvalidConsensusChangeID \<longrightarrow>
            (case e2 of
               Some e \<Rightarrow> newContractor D w0
                  = (Inl (Error (''contractor subscription failed: '' @ ErrorText D e)), w3)
             | None \<Rightarrow> newContractor D w0
                  = (case save D c3 w3 of
                       (Some e, w4) \<Rightarrow> (Inl e, w4)
                     | (None, w4) \<Rightarrow> (Inr c3, w4))))
       \<and> (\<forall>e. e1 = Some e \<and> e \<noteq> ErrInvalidConsensusChangeID \<longrightarrow>
            newContractor D w0
              = (Inl (Error (''contractor subscription failed: '' @ ErrorText D e)), w2))"
  using assms
  by (auto simp: newContractor_def Let_def split: option.splits prod.splits)

theorem newContractor_resubscribes_witness:
  "newContractor D0 [] = (Inr (emptyContractor\<lparr>blockHeight := 0, lastChange := 0\<rparr>), [42, 0])"
proof -
  have 1: "load D0 emptyContractor [] = (None, emptyContractor\<lparr>blockHeight := 7, lastChange := 42\<rparr>, [])"
    by (simp add: D0_def)
  have 2: "None = None \<or> (\<exists>e. None = Some e \<and> IsNotExist D0 e)" by simp
  have 3: "ConsensusSetSubscribe D0 (emptyContractor\<lparr>blockHeight := 7, lastChange := 42\<rparr>)
             (lastChange (emptyContractor\<lparr>blockHeight := 7, lastChange := 42\<rparr>)) []
           = (Some ErrInvalidConsensusChangeID, emptyContractor\<lparr>blockHeight := 7, lastChange := 42\<rparr>, [42])"
    by (simp add: D0_def)
  have 4: "ConsensusSetSubscribe D0
             (emptyContractor\<lparr>blockHeight := 7, lastChange := 42\<rparr>\<lparr>blockHeight := 0, lastChange := ConsensusChangeBeginning D0\<rparr>)
             (ConsensusChangeBeginning D0) [42]
           = (None, emptyContractor\<lparr>blockHeight := 0, lastChange := 0\<rparr>, [42, 0])"
    by (simp add: D0_def)
  from newContractor_resubscribes [OF 1 2 3 4]
  show ?thesis by (simp add: D0_def)
qed

lemma resolveID_unfold:
  "resolveID c i = (case renewedIDs c i of None \<Rightarrow> Some i | Some n \<Rightarrow> resolveID c n)"
  by (simp add: resolveID_def lookupID_def resolveID_loop.simps [of c i] split: option.split)

lemma resolveID_no_entry: "renewedIDs c i = None \<Longrightarrow> resolveID c i = Some i"
  by (simp add: resolveID_unfold [of c i])

lemma resolveID_entry: "renewedIDs c i = Some n \<Longrightarrow> resolveID c i = resolveID c n"
  by (simp add: resolveID_unfold [of c i])

lemma resolveID_chain:
  "chain_ends m i \<Longrightarrow> m = renewedIDs c \<Longrightarrow>
     \<exists>r. resolveID c i = Some r \<and> renewedIDs c r = None"
proof (induction rule: chain_ends.induct)
  case (chain_stop i)
  then show ?case by (simp add: resolveID_no_entry)
next
  case (chain_step i n)
  then show ?case by (simp add: resolveID_entry)
qed

text \<open>
  C10. When the chain of entries of \<open>renewedIDs\<close> that starts at an id is finite,
  \<open>ResolveID\<close> (and \<open>resolveID\<close>) returns, and the id it returns is not a key of
  \<open>renewedIDs\<close>; resolving the result again gives the result back; and an id with no entry
  resolves to itself.
\<close>

theorem resolveID_terminal:
  assumes "chain_ends (renewedIDs c) i"
  shows "\<exists>r. ResolveID c i = Some r \<and> resolveID c i = Some r
            \<and> r \<notin> dom (renewedIDs c)
            \<and> resolveID c r = Some r
            \<and> (renewedIDs c i = None \<longrightarrow> r = i)"
proof -
  from resolveID_chain [OF assms refl]
  obtain r where r: "resolveID c i = Some r" "renewedIDs c r = None" by blast
  have "resolveID c r = Some r" using r(2) by (rule resolveID_no_entry)
  moreover have "renewedIDs c i = None \<longrightarrow> r = i"
    using r(1) by (auto simp: resolveID_no_entry)
  ultimately show ?thesis using r by (auto simp: ResolveID_def)
qed

theorem resolveID_terminal_witness:
  "chain_ends (renewedIDs renewals_example) 1
   \<and> ResolveID renewals_example 1 = Some 3
   \<and> 3 \<notin> dom (renewedIDs renewals_example)
   \<and> resolveID renewals_example 3 = Some 3"
proof -
  have m3: "renewedIDs renewals_example 3 = None"
    and m2: "renewedIDs renewals_example 2 = Some 3"
    and m1: "renewedIDs renewals_example 1 = Some 2"
    by (simp_all add: renewals_example_def)
  have h: "chain_ends (renewedIDs renewals_example) 1"
    by (intro chain_step [where m = "renewedIDs renewals_example", OF m1]
          chain_step [where m = "renewedIDs renewals_example", OF m2]
          chain_stop [where m = "renewedIDs renewals_example", OF m3])
  have r: "resolveID renewals_example 1 = Some 3"
    by (simp add: resolveID_entry [OF m1] resolveID_entry [OF m2] resolveID_no_entry [OF m3])
  from resolveID_terminal [OF h] r h show ?thesis
    by (auto simp: ResolveID_def)
qed

end
